theory Spec2Isabelle
  imports Complex_Main
begin

section \<open>The FadeOut effect plugin (audacious-plugin-fadeout.cc)\<close>

text \<open>
  Conventions of the embedding.
  \<^item> The values of the C types \<open>double\<close> and \<open>float\<close> are reals. Where a value is
    handed on to the host or decides a claim, the rounding of the operation is part of the
    model: the samples that \<open>process\<close> writes and the microseconds of the sleep
    bookkeeping are rounded as IEEE 754 rounds them (\<open>to_float\<close>, \<open>to_double\<close>); the
    number of steps of the ramp is settled with an explicit relative error for every
    operation, \<open>pow\<close> being a library function. The gain itself, of which the statements
    below use the order only, is multiplied exactly.
  \<^item> The two globals of the plugin, \<open>vol_reduction\<close> and \<open>is_plugin_processing\<close>, are
    fields of a state record that every entry point takes and returns.
  \<^item> What the plugin does to its host is recorded in the same record: the idle sources
    queued with \<open>g_idle_add\<close> and not yet dispatched, the calls of \<open>aud_drct_stop\<close>, the
    messages given to \<open>g_warning\<close>, the threads created, the menu entry.
  \<^item> The configured duration (the value \<open>aud_get_double\<close> returns) is a parameter.
\<close>

subsection \<open>The types float and double\<close>

text \<open>
  The finite numbers of IEEE 754 binary32 (\<open>float\<close>) and binary64 (\<open>double\<close>) as
  reals; infinities, NaN and the sign of zero are not represented. A double operation
  returns the exact result rounded to the nearest double, and a conversion from double to
  float rounds to the nearest float, a tie going to the number with the even significand.
\<close>

definition round_half_even :: "real \<Rightarrow> int" where
  "round_half_even x =
     (let f = \<lfloor>x\<rfloor>; r = x - of_int f
      in if r < 1 / 2 then f else if 1 / 2 < r then f + 1 else if even f then f else f + 1)"

text \<open>
  The binade of a number \<open>x \<ge> 0\<close> in a format with the exponents \<open>emin .. emax\<close>: the
  exponent \<open>e\<close> with \<open>2 ^ e \<le> x < 2 ^ (e + 1)\<close>, searched upwards from 0 when \<open>1 \<le> x\<close>
  and downwards otherwise; below \<open>2 ^ emin\<close>, where the subnormal numbers lie, it is
  \<open>emin\<close>.
\<close>

fun binade_up :: "nat \<Rightarrow> int \<Rightarrow> real \<Rightarrow> int" where
  "binade_up 0 e x = e"
| "binade_up (Suc n) e x = (if x < 2 powi (e + 1) then e else binade_up n (e + 1) x)"

fun binade_down :: "nat \<Rightarrow> int \<Rightarrow> real \<Rightarrow> int" where
  "binade_down 0 e x = e"
| "binade_down (Suc n) e x = (if 2 powi e \<le> x then e else binade_down n (e - 1) x)"

definition binade :: "int \<Rightarrow> int \<Rightarrow> real \<Rightarrow> int" where
  "binade emin emax x =
     (if 1 \<le> x then binade_up (nat emax) 0 x else binade_down (nat (- emin)) 0 x)"

text \<open>
  Rounding to a format with \<open>p\<close> bits of significand: the numbers of the format in the
  binade \<open>e\<close> are the multiples of \<open>2 ^ (e - p + 1)\<close>. (A result above the largest finite
  number of the format is an infinity in C, which this model does not have; the statements
  below bound the values they round.)
\<close>

definition round_to :: "nat \<Rightarrow> int \<Rightarrow> int \<Rightarrow> real \<Rightarrow> real" where
  "round_to p emin emax x =
     (let q = 2 powi (binade emin emax \<bar>x\<bar> - int p + 1)
      in of_int (round_half_even (x / q)) * q)"

definition to_double :: "real \<Rightarrow> real" where
  "to_double = round_to 53 (- 1022) 1023"

definition to_float :: "real \<Rightarrow> real" where
  "to_float = round_to 24 (- 126) 127"

text \<open>\<open>FLT_MAX\<close>, the largest finite float.\<close>

definition float_max :: real where
  "float_max = (2 ^ 24 - 1) * 2 ^ 104"

subsection \<open>State\<close>

record plugin_state =
  vol_reduction :: real
  is_plugin_processing :: bool
  idle_sources :: nat
  playback_stops :: nat
  warnings :: "string list"
  fading_threads :: nat
  menu_item :: bool

text \<open>\<open>#define MAX_VOL_REDUCTION 200\<close>\<close>

abbreviation MAX_VOL_REDUCTION :: real where
  "MAX_VOL_REDUCTION \<equiv> 200"

text \<open>The state of a freshly loaded plugin: the static initialisers of the two globals.\<close>

definition initial_state :: plugin_state where
  "initial_state =
     \<lparr>vol_reduction = 1, is_plugin_processing = False, idle_sources = 0,
      playback_stops = 0, warnings = [], fading_threads = 0, menu_item = False\<rparr>"

subsection \<open>Stopping playback\<close>

text \<open>
  \<open>stop_playback_and_fading_cb\<close> is the \<open>GSourceFunc\<close>: it calls \<open>aud_drct_stop\<close>
  and sets \<open>vol_reduction = 1\<close>. It returns \<open>FALSE\<close>, so the main loop removes the
  source after the call.
\<close>

definition stop_playback_and_fading_cb :: "plugin_state \<Rightarrow> plugin_state" where
  "stop_playback_and_fading_cb s =
     s\<lparr>playback_stops := playback_stops s + 1, vol_reduction := 1\<rparr>"

text \<open>\<open>stop_playback_and_fading\<close> only queues the callback: \<open>g_idle_add (cb, NULL)\<close>.\<close>

definition stop_playback_and_fading :: "plugin_state \<Rightarrow> plugin_state" where
  "stop_playback_and_fading s = s\<lparr>idle_sources := idle_sources s + 1\<rparr>"

text \<open>
  The host's main loop dispatching one pending idle source: the source is taken off the
  queue and its callback runs. With no pending source nothing happens.
\<close>

definition idle_dispatch :: "plugin_state \<Rightarrow> plugin_state" where
  "idle_dispatch s =
     (if 0 < idle_sources s
      then stop_playback_and_fading_cb (s\<lparr>idle_sources := idle_sources s - 1\<rparr>)
      else s)"

subsection \<open>Plugin hooks\<close>

definition init :: "plugin_state \<Rightarrow> plugin_state \<times> bool" where
  "init s = (s\<lparr>menu_item := True\<rparr>, True)"

definition cleanup :: "plugin_state \<Rightarrow> plugin_state" where
  "cleanup s = (s\<lparr>vol_reduction := 1\<rparr>)\<lparr>menu_item := False\<rparr>"

definition start :: "plugin_state \<Rightarrow> int \<Rightarrow> int \<Rightarrow> plugin_state" where
  "start s channels rate = s\<lparr>is_plugin_processing := True\<rparr>"

text \<open>
  The loop of \<open>process\<close>: the pointer \<open>f\<close> runs from \<open>data.begin ()\<close> to \<open>data.end ()\<close>
  and every sample is overwritten in place; \<open>f\<close> is the index of the pointer. In
  \<open>* f = * f / vol_reduction\<close> the float \<open>* f\<close> is converted to double (exactly), the
  quotient is a double, and the assignment converts it to float.
\<close>

function process_loop :: "plugin_state \<Rightarrow> nat \<Rightarrow> real list \<Rightarrow> real list" where
  "process_loop s f data =
     (if f < length data
      then process_loop s (Suc f)
             (data[f := to_float (to_double (data ! f / vol_reduction s))])
      else data)"
  by pat_completeness auto
termination
  by (relation "measure (\<lambda>(s, f, data). length data - f)") auto

definition process :: "plugin_state \<Rightarrow> real list \<Rightarrow> real list" where
  "process s data = (if vol_reduction s \<noteq> 1 then process_loop s 0 data else data)"

text \<open>
  \<open>finish\<close>, statement by statement: the stop request when fading is active, then the
  flag, then \<open>return process (data)\<close>.
\<close>

definition finish :: "plugin_state \<Rightarrow> real list \<Rightarrow> bool \<Rightarrow> plugin_state \<times> real list" where
  "finish s data end_of_playlist =
     (let s1 = (if vol_reduction s \<noteq> 1 then stop_playback_and_fading s else s);
          s2 = s1\<lparr>is_plugin_processing := False\<rparr>
      in (s2, process s2 data))"

subsection \<open>What other threads do while a thread is between two statements\<close>

text \<open>
  The entry points that write the shared globals, as events: the main loop dispatching
  an idle source, and the hooks \<open>cleanup\<close>, \<open>start\<close> and \<open>finish\<close> (of \<open>finish\<close> only
  the effect on the state).
\<close>

datatype host_event = Idle_dispatch | Plugin_cleanup | Effect_start | Effect_finish

fun apply_host_event :: "host_event \<Rightarrow> plugin_state \<Rightarrow> plugin_state" where
  "apply_host_event Idle_dispatch s = idle_dispatch s"
| "apply_host_event Plugin_cleanup s = cleanup s"
| "apply_host_event Effect_start s = start s 2 44100"
| "apply_host_event Effect_finish s = fst (finish s [] False)"

definition host_events :: "host_event list \<Rightarrow> plugin_state \<Rightarrow> plugin_state" where
  "host_events evs s = fold apply_host_event evs s"

subsection \<open>The fading thread\<close>

text \<open>
  \<open>pow (MAX_VOL_REDUCTION, (1 / (100 * duration)))\<close>. The argument is the configured
  duration. (For a duration of 0 the C quotient is infinite while the quotient of HOL is
  0; every statement below is about durations of at least 1.)
\<close>

definition calculate_vol_reduction_amount :: "real \<Rightarrow> real" where
  "calculate_vol_reduction_amount duration = MAX_VOL_REDUCTION powr (1 / (100 * duration))"

text \<open>
  The locals of \<open>fading_thread\<close>: \<open>vol_reduction_amount\<close> (double), \<open>target\<close>
  (\<open>guint16\<close>, kept in \<open>0..65535\<close>) and \<open>remaining\<close> (\<open>gint32\<close>).
\<close>

record fading_locals =
  vol_reduction_amount :: real
  target :: int
  remaining :: int

text \<open>
  Conversion of a double to \<open>gint32\<close>: the fraction is dropped (towards zero); the
  conversion is undefined when the result is not a \<open>gint32\<close>. Arithmetic on \<open>gint32\<close>
  is undefined when it overflows. Both are \<open>None\<close>.
\<close>

definition in_gint32 :: "int \<Rightarrow> bool" where
  "in_gint32 i \<longleftrightarrow> - 2147483648 \<le> i \<and> i \<le> 2147483647"

definition double_to_gint32 :: "real \<Rightarrow> int option" where
  "double_to_gint32 x =
     (let i = (if 0 \<le> x then \<lfloor>x\<rfloor> else \<lceil>x\<rceil>)
      in if in_gint32 i then Some i else None)"

definition gint32_arith :: "int \<Rightarrow> int option" where
  "gint32_arith i = (if in_gint32 i then Some i else None)"

text \<open>Conversion of a \<open>gint32\<close> to \<open>guint16\<close>: the value modulo \<open>2 ^ 16\<close>.\<close>

definition to_guint16 :: "int \<Rightarrow> int" where
  "to_guint16 i = i mod 65536"

text \<open>
  The bookkeeping of one loop iteration after \<open>g_usleep (target)\<close>; \<open>elapsed\<close> is what
  \<open>g_timer_elapsed\<close> returns (seconds, a double):
  \<^verbatim>\<open>
  gint32 diff = (1000000.0 * g_timer_elapsed (timer, NULL)) - target;
  remaining = 10000 - diff + (remaining < 0 ? remaining : 0);
  target = remaining < 0 ? 0 : remaining;
  \<close>
  The product and the difference are double operations (\<open>target\<close> is converted to
  double exactly); the initialisation of \<open>diff\<close> converts the double to \<open>gint32\<close>.
\<close>

definition sleep_accounting :: "fading_locals \<Rightarrow> real \<Rightarrow> fading_locals option" where
  "sleep_accounting l elapsed =
     (case double_to_gint32
             (to_double (to_double (1000000 * elapsed) - real_of_int (target l))) of
        None \<Rightarrow> None
      | Some diff \<Rightarrow>
          (case gint32_arith (10000 - diff) of
             None \<Rightarrow> None
           | Some a \<Rightarrow>
               (case gint32_arith (a + (if remaining l < 0 then remaining l else 0)) of
                  None \<Rightarrow> None
                | Some r \<Rightarrow>
                    Some (l\<lparr>remaining := r, target := to_guint16 (if r < 0 then 0 else r)\<rparr>))))"

text \<open>
  The reading of the timer after exactly 10000 microseconds: the double nearest to
  \<open>0.01\<close>.
\<close>

definition ten_milliseconds :: real where
  "ten_milliseconds = to_double (1 / 100)"

text \<open>
  How a run of the thread stands: asleep in \<open>g_usleep\<close> with no further observation
  to consume, left through \<open>g_thread_exit\<close>, returned after the loop, or stopped at an
  undefined conversion or overflow.
\<close>

datatype thread_status = Sleeping | Exited | Returned | Undefined

text \<open>The code after the loop: the stop request, then \<open>vol_reduction = 1\<close>.\<close>

definition after_loop :: "plugin_state \<Rightarrow> plugin_state" where
  "after_loop s = (stop_playback_and_fading s)\<lparr>vol_reduction := 1\<rparr>"

text \<open>
  The \<open>for\<close> loop from its condition on. Each observation is one \<open>g_usleep\<close>: the
  time the timer then shows, and what the other threads did to the state meanwhile.
  The thread's own statements between two sleeps run without interruption.
\<close>

fun fading_loop ::
  "fading_locals \<Rightarrow> plugin_state \<Rightarrow> (real \<times> host_event list) list \<Rightarrow>
     thread_status \<times> fading_locals \<times> plugin_state" where
  "fading_loop l s [] =
     (if vol_reduction s < MAX_VOL_REDUCTION then (Sleeping, l, s)
      else (Returned, l, after_loop s))"
| "fading_loop l s ((elapsed, evs) # obs) =
     (if vol_reduction s < MAX_VOL_REDUCTION then
        (let s1 = host_events evs s in
         case sleep_accounting l elapsed of
           None \<Rightarrow> (Undefined, l, s1)
         | Some l1 \<Rightarrow>
             if vol_reduction s1 = 1 then (Exited, l1, s1)
             else fading_loop l1
                    (s1\<lparr>vol_reduction := vol_reduction s1 * vol_reduction_amount l1\<rparr>) obs)
      else (Returned, l, after_loop s))"

definition fading_thread ::
  "real \<Rightarrow> plugin_state \<Rightarrow> (real \<times> host_event list) list \<Rightarrow>
     thread_status \<times> fading_locals \<times> plugin_state" where
  "fading_thread duration s obs =
     (let l = \<lparr>vol_reduction_amount = calculate_vol_reduction_amount duration,
                target = 10000, remaining = 0\<rparr>
      in fading_loop l (s\<lparr>vol_reduction := vol_reduction s * vol_reduction_amount l\<rparr>) obs)"

subsection \<open>The end of the stream among the other threads\<close>

text \<open>
  The statements of a fading thread that write the shared state: the multiplication
  \<open>vol_reduction *= vol_reduction_amount\<close> of the loop header (the argument is the
  factor of that thread) and, after the loop, the stop request and \<open>vol_reduction = 1\<close>.
\<close>

datatype fading_statement = Fading_multiply real | Fading_stop_request | Fading_reset

fun apply_fading_statement :: "fading_statement \<Rightarrow> plugin_state \<Rightarrow> plugin_state" where
  "apply_fading_statement (Fading_multiply amount) s =
     s\<lparr>vol_reduction := vol_reduction s * amount\<rparr>"
| "apply_fading_statement Fading_stop_request s = stop_playback_and_fading s"
| "apply_fading_statement Fading_reset s = s\<lparr>vol_reduction := 1\<rparr>"

text \<open>
  \<open>finish\<close> runs on the playback thread, the main loop and the fading thread on
  threads of their own. What they do meanwhile is a list of events: entry points
  of the plugin that the host runs, and statements of a fading thread.
\<close>

datatype concurrent_event = Host host_event | Fading fading_statement

fun apply_concurrent_event :: "concurrent_event \<Rightarrow> plugin_state \<Rightarrow> plugin_state" where
  "apply_concurrent_event (Host e) s = apply_host_event e s"
| "apply_concurrent_event (Fading f) s = apply_fading_statement f s"

definition concurrent_events :: "concurrent_event list \<Rightarrow> plugin_state \<Rightarrow> plugin_state" where
  "concurrent_events evs s = fold apply_concurrent_event evs s"

text \<open>
  \<open>finish_interleaved evs\<close> is \<open>finish\<close> with the events \<open>evs\<close> of the other threads
  falling between the assignment of the flag and \<open>return process (data)\<close>.
\<close>

definition finish_interleaved ::
  "concurrent_event list \<Rightarrow> plugin_state \<Rightarrow> real list \<Rightarrow> bool \<Rightarrow>
     plugin_state \<times> real list" where
  "finish_interleaved evs s data end_of_playlist =
     (let s1 = (if vol_reduction s \<noteq> 1 then stop_playback_and_fading s else s);
          s2 = s1\<lparr>is_plugin_processing := False\<rparr>;
          s3 = concurrent_events evs s2
      in (s3, process s3 data))"

subsection \<open>The ramp in double arithmetic\<close>

text \<open>
  The arithmetic of the ramp with the rounding of doubles made explicit: an operation on
  doubles returns the exact result times \<open>1 + e\<close>, where \<open>e\<close> is the relative error of
  that operation. IEEE 754 bounds the error of a product or a quotient by \<open>2 ^ -53\<close>
  (nothing overflows or underflows here); the error of \<open>pow\<close> is that of the C library
  (below one unit in the last place, \<open>2 ^ -52\<close>, in glibc).

  \<open>rounded_amount\<close> is \<open>pow (MAX_VOL_REDUCTION, (1 / (100 * duration)))\<close> with the
  errors \<open>e1\<close> of the product, \<open>e2\<close> of the quotient and \<open>e3\<close> of \<open>pow\<close>.
\<close>

definition rounded_amount :: "real \<Rightarrow> real \<Rightarrow> real \<Rightarrow> real \<Rightarrow> real" where
  "rounded_amount duration e1 e2 e3 =
     MAX_VOL_REDUCTION powr (1 / (100 * duration * (1 + e1)) * (1 + e2)) * (1 + e3)"

text \<open>
  The \<open>for\<close> loop of a thread that no other thread disturbs, on \<open>vol_reduction\<close> alone:
  \<open>errs\<close> are the errors of the successive products \<open>vol_reduction *= vol_reduction_amount\<close>.
  The result is the number of multiplications after which the condition
  \<open>vol_reduction < MAX_VOL_REDUCTION\<close> fails; it is \<open>None\<close> when the thread leaves at its
  poll (\<open>vol_reduction == 1\<close>) or the list of errors is used up before.
\<close>

fun rounded_ramp :: "real \<Rightarrow> real \<Rightarrow> real list \<Rightarrow> nat option" where
  "rounded_ramp amount vol [] = None"
| "rounded_ramp amount vol (e # errs) =
     (let vol' = vol * amount * (1 + e)
      in if vol' < MAX_VOL_REDUCTION then
           (if vol' = 1 then None else map_option Suc (rounded_ramp amount vol' errs))
         else Some 1)"

text \<open>The gain after \<open>k\<close> multiplications.\<close>

definition rounded_gain :: "real \<Rightarrow> real \<Rightarrow> real list \<Rightarrow> nat \<Rightarrow> real" where
  "rounded_gain amount vol errs k = vol * amount ^ k * prod_list (map (\<lambda>e. 1 + e) (take k errs))"

subsection \<open>The menu action\<close>

text \<open>
  \<open>g_thread_try_new\<close> either creates the thread, or returns \<open>NULL\<close> and sets the
  error. Which of the two happens is decided by the system, so it is an argument.
\<close>

datatype thread_creation = Thread_created | Thread_failed string

datatype crash = Null_dereference

text \<open>
  \<open>g_thread_unref\<close> of GLib takes a \<open>GThread\<close> that is not \<open>NULL\<close>: it decrements
  the reference count through the pointer. The argument here is whether the pointer
  is not \<open>NULL\<close>.
\<close>

definition g_thread_unref :: "bool \<Rightarrow> crash + unit" where
  "g_thread_unref thread_not_null = (if thread_not_null then Inr () else Inl Null_dereference)"

text \<open>
  \<open>fade_out_cb\<close>: inside the guard the thread is requested, \<open>g_thread_unref (thread)\<close>
  is called whatever \<open>g_thread_try_new\<close> returned, and only then \<open>error\<close> is tested.
\<close>

definition fade_out_cb :: "thread_creation \<Rightarrow> plugin_state \<Rightarrow> crash + plugin_state" where
  "fade_out_cb created s =
     (if is_plugin_processing s \<and> vol_reduction s = 1 then
        (let (s1, thread_not_null, error) =
               (case created of
                  Thread_created \<Rightarrow> (s\<lparr>fading_threads := fading_threads s + 1\<rparr>, True, None)
                | Thread_failed message \<Rightarrow> (s, False, Some message))
         in case g_thread_unref thread_not_null of
              Inl c \<Rightarrow> Inl c
            | Inr _ \<Rightarrow>
                (case error of
                   None \<Rightarrow> Inr s1
                 | Some message \<Rightarrow>
                     Inr (s1\<lparr>warnings := warnings s1 @
                       [''Could not create the thread for fading out: '' @ message]\<rparr>)))
      else Inr s)"

section \<open>The legacy plugin (audacious-plugin-fadeout.c)\<close>

text \<open>
  The C file keeps the duration and the step factor in globals: \<open>init\<close> and the
  configuration dialog compute \<open>vol_reduction_amount\<close>, and the fading thread reads the
  global at every multiplication. Its names carry the prefix \<open>legacy_\<close> here.
\<close>

record legacy_state =
  legacy_plugin_active :: bool
  legacy_vol_reduction :: real
  legacy_vol_reduction_amount :: real
  legacy_duration :: real
  legacy_is_plugin_started_up :: bool
  legacy_idle_sources :: nat
  legacy_playback_stops :: nat
  legacy_menu_item :: bool

text \<open>The static initialisers of the globals.\<close>

definition legacy_initial_state :: legacy_state where
  "legacy_initial_state =
     \<lparr>legacy_plugin_active = False, legacy_vol_reduction = 1,
      legacy_vol_reduction_amount = 1, legacy_duration = 4,
      legacy_is_plugin_started_up = False, legacy_idle_sources = 0,
      legacy_playback_stops = 0, legacy_menu_item = False\<rparr>"

text \<open>\<open>pow (200, (1 / (100 * seconds)))\<close>\<close>

definition legacy_calculate_vol_reduction_amount :: "real \<Rightarrow> real" where
  "legacy_calculate_vol_reduction_amount seconds = 200 powr (1 / (100 * seconds))"

text \<open>The \<open>GSourceFunc\<close> \<open>stop_playback_and_fading\<close> of the C file.\<close>

definition legacy_stop_playback_and_fading :: "legacy_state \<Rightarrow> legacy_state" where
  "legacy_stop_playback_and_fading s =
     s\<lparr>legacy_playback_stops := legacy_playback_stops s + 1, legacy_vol_reduction := 1\<rparr>"

definition legacy_idle_dispatch :: "legacy_state \<Rightarrow> legacy_state" where
  "legacy_idle_dispatch s =
     (if 0 < legacy_idle_sources s
      then legacy_stop_playback_and_fading (s\<lparr>legacy_idle_sources := legacy_idle_sources s - 1\<rparr>)
      else s)"

text \<open>
  \<open>init\<close>: \<open>start_up\<close>, the menu entry, then the duration is read from the
  configuration (the argument) and the step factor is computed from it.
\<close>

definition legacy_init :: "real \<Rightarrow> legacy_state \<Rightarrow> legacy_state \<times> bool" where
  "legacy_init configured s =
     (s\<lparr>legacy_is_plugin_started_up := True, legacy_menu_item := True,
        legacy_duration := configured,
        legacy_vol_reduction_amount := legacy_calculate_vol_reduction_amount configured,
        legacy_plugin_active := True\<rparr>, True)"

definition legacy_cleanup :: "legacy_state \<Rightarrow> legacy_state" where
  "legacy_cleanup s =
     (if legacy_plugin_active s
      then s\<lparr>legacy_vol_reduction := 1, legacy_menu_item := False, legacy_plugin_active := False\<rparr>
      else s)"

definition legacy_fadeout_start :: "legacy_state \<Rightarrow> int \<Rightarrow> int \<Rightarrow> legacy_state" where
  "legacy_fadeout_start s channels rate = s"

function legacy_fadeout_process_loop :: "legacy_state \<Rightarrow> nat \<Rightarrow> real list \<Rightarrow> real list" where
  "legacy_fadeout_process_loop s i d =
     (if i < length d
      then legacy_fadeout_process_loop s (Suc i)
             (d[i := to_float (to_double (d ! i / legacy_vol_reduction s))])
      else d)"
  by pat_completeness auto
termination
  by (relation "measure (\<lambda>(s, i, d). length d - i)") auto

definition legacy_fadeout_process :: "legacy_state \<Rightarrow> real list \<Rightarrow> real list" where
  "legacy_fadeout_process s d =
     (if legacy_vol_reduction s \<noteq> 1 then legacy_fadeout_process_loop s 0 d else d)"

text \<open>\<open>fadeout_finish\<close>: the samples are processed first, then the stop is requested.\<close>

definition legacy_fadeout_finish :: "legacy_state \<Rightarrow> real list \<Rightarrow> legacy_state \<times> real list" where
  "legacy_fadeout_finish s d =
     (let d1 = legacy_fadeout_process s d;
          s1 = (if legacy_vol_reduction s \<noteq> 1
                then s\<lparr>legacy_idle_sources := legacy_idle_sources s + 1\<rparr> else s)
      in (s1, d1))"

datatype legacy_event = Legacy_idle_dispatch | Legacy_cleanup | Legacy_start | Legacy_finish

fun apply_legacy_event :: "legacy_event \<Rightarrow> legacy_state \<Rightarrow> legacy_state" where
  "apply_legacy_event Legacy_idle_dispatch s = legacy_idle_dispatch s"
| "apply_legacy_event Legacy_cleanup s = legacy_cleanup s"
| "apply_legacy_event Legacy_start s = legacy_fadeout_start s 2 44100"
| "apply_legacy_event Legacy_finish s = fst (legacy_fadeout_finish s [])"

definition legacy_events :: "legacy_event list \<Rightarrow> legacy_state \<Rightarrow> legacy_state" where
  "legacy_events evs s = fold apply_legacy_event evs s"

text \<open>The locals of the legacy \<open>fading_thread\<close>; \<open>diff\<close> is declared outside the loop.\<close>

record legacy_locals =
  legacy_target :: int
  legacy_diff :: int
  legacy_remaining :: int

definition legacy_sleep_accounting :: "legacy_locals \<Rightarrow> real \<Rightarrow> legacy_locals option" where
  "legacy_sleep_accounting l elapsed =
     (case double_to_gint32
             (to_double (to_double (1000000 * elapsed) - real_of_int (legacy_target l))) of
        None \<Rightarrow> None
      | Some diff \<Rightarrow>
          (case gint32_arith (10000 - diff) of
             None \<Rightarrow> None
           | Some a \<Rightarrow>
               (case gint32_arith (a + (if legacy_remaining l < 0 then legacy_remaining l else 0)) of
                  None \<Rightarrow> None
                | Some r \<Rightarrow>
                    Some (l\<lparr>legacy_diff := diff, legacy_remaining := r,
                            legacy_target := to_guint16 (if r < 0 then 0 else r)\<rparr>))))"

text \<open>After the loop: \<open>g_idle_add (stop_playback_and_fading, NULL)\<close>, then \<open>vol_reduction = 1\<close>.\<close>

definition legacy_after_loop :: "legacy_state \<Rightarrow> legacy_state" where
  "legacy_after_loop s =
     s\<lparr>legacy_idle_sources := legacy_idle_sources s + 1, legacy_vol_reduction := 1\<rparr>"

fun legacy_fading_loop ::
  "legacy_locals \<Rightarrow> legacy_state \<Rightarrow> (real \<times> legacy_event list) list \<Rightarrow>
     thread_status \<times> legacy_locals \<times> legacy_state" where
  "legacy_fading_loop l s [] =
     (if legacy_vol_reduction s < 200 then (Sleeping, l, s)
      else (Returned, l, legacy_after_loop s))"
| "legacy_fading_loop l s ((elapsed, evs) # obs) =
     (if legacy_vol_reduction s < 200 then
        (let s1 = legacy_events evs s in
         case legacy_sleep_accounting l elapsed of
           None \<Rightarrow> (Undefined, l, s1)
         | Some l1 \<Rightarrow>
             if legacy_vol_reduction s1 = 1 then (Exited, l1, s1)
             else legacy_fading_loop l1
                    (s1\<lparr>legacy_vol_reduction :=
                          legacy_vol_reduction s1 * legacy_vol_reduction_amount s1\<rparr>) obs)
      else (Returned, l, legacy_after_loop s))"

definition legacy_fading_thread ::
  "legacy_state \<Rightarrow> (real \<times> legacy_event list) list \<Rightarrow>
     thread_status \<times> legacy_locals \<times> legacy_state" where
  "legacy_fading_thread s obs =
     legacy_fading_loop \<lparr>legacy_target = 10000, legacy_diff = 0, legacy_remaining = 0\<rparr>
       (s\<lparr>legacy_vol_reduction := legacy_vol_reduction s * legacy_vol_reduction_amount s\<rparr>) obs"

subsection \<open>Comparing the two versions\<close>

text \<open>
  The hook of the C file that stands for each event of the current plugin, and the same
  for the observations of a run of the fading thread.
\<close>

fun legacy_event_of :: "host_event \<Rightarrow> legacy_event" where
  "legacy_event_of Idle_dispatch = Legacy_idle_dispatch"
| "legacy_event_of Plugin_cleanup = Legacy_cleanup"
| "legacy_event_of Effect_start = Legacy_start"
| "legacy_event_of Effect_finish = Legacy_finish"

definition legacy_observations ::
  "(real \<times> host_event list) list \<Rightarrow> (real \<times> legacy_event list) list" where
  "legacy_observations obs = map (\<lambda>(elapsed, evs). (elapsed, map legacy_event_of evs)) obs"

text \<open>
  What the two versions have in common of their states: the gain, the queue of idle
  sources and the calls of \<open>aud_drct_stop\<close>.
\<close>

definition same_gain_state :: "legacy_state \<Rightarrow> plugin_state \<Rightarrow> bool" where
  "same_gain_state ls s \<longleftrightarrow>
     legacy_vol_reduction ls = vol_reduction s \<and>
     legacy_idle_sources ls = idle_sources s \<and>
     legacy_playback_stops ls = playback_stops s"

definition same_locals :: "legacy_locals \<Rightarrow> fading_locals \<Rightarrow> bool" where
  "same_locals ll l \<longleftrightarrow> legacy_target ll = target l \<and> legacy_remaining ll = remaining l"

text \<open>
  The relation kept along a run: the common part of the states agrees, the global step
  factor of the C file is the factor \<open>a\<close> the current thread computed, and the C plugin
  is active unless the gain is 1.
\<close>

definition related :: "real \<Rightarrow> legacy_state \<Rightarrow> plugin_state \<Rightarrow> bool" where
  "related a ls s \<longleftrightarrow>
     same_gain_state ls s \<and> legacy_vol_reduction_amount ls = a \<and>
     (legacy_plugin_active ls \<or> legacy_vol_reduction ls = 1)"

text \<open>The gain each version shows after every prefix of the observations.\<close>

definition gain_sequence :: "real \<Rightarrow> plugin_state \<Rightarrow> (real \<times> host_event list) list \<Rightarrow> real list" where
  "gain_sequence duration s obs =
     map (\<lambda>k. vol_reduction (snd (snd (fading_thread duration s (take k obs)))))
       [0 ..< Suc (length obs)]"

definition legacy_gain_sequence ::
  "legacy_state \<Rightarrow> (real \<times> legacy_event list) list \<Rightarrow> real list" where
  "legacy_gain_sequence s obs =
     map (\<lambda>k. legacy_vol_reduction (snd (snd (legacy_fading_thread s (take k obs)))))
       [0 ..< Suc (length obs)]"

section \<open>Properties of the current plugin\<close>

subsection \<open>Rounding to float and double\<close>

lemma round_half_even_of_int [simp]: "round_half_even (of_int m) = m"
  by (simp add: round_half_even_def)

lemma round_half_even_cases:
  "round_half_even x = \<lfloor>x\<rfloor> \<and> x - of_int \<lfloor>x\<rfloor> \<le> 1 / 2 \<or>
   round_half_even x = \<lfloor>x\<rfloor> + 1 \<and> 1 / 2 \<le> x - of_int \<lfloor>x\<rfloor>"
  by (auto simp: round_half_even_def Let_def)

lemma round_half_even_error: "\<bar>of_int (round_half_even x) - x\<bar> \<le> 1 / 2"
proof -
  have "of_int \<lfloor>x\<rfloor> \<le> x" "x < of_int \<lfloor>x\<rfloor> + 1" by linarith+
  with round_half_even_cases [of x] show ?thesis by auto
qed

lemma round_half_even_mono:
  assumes "x \<le> y"
  shows "round_half_even x \<le> round_half_even y"
proof -
  have f: "\<lfloor>x\<rfloor> \<le> \<lfloor>y\<rfloor>" using assms by (rule floor_mono)
  show ?thesis
  proof (cases "\<lfloor>x\<rfloor> = \<lfloor>y\<rfloor>")
    case True
    with assms show ?thesis by (auto simp: round_half_even_def Let_def)
  next
    case False
    with f have "\<lfloor>x\<rfloor> + 1 \<le> \<lfloor>y\<rfloor>" by simp
    moreover have "round_half_even x \<le> \<lfloor>x\<rfloor> + 1" using round_half_even_cases [of x] by auto
    moreover have "\<lfloor>y\<rfloor> \<le> round_half_even y" using round_half_even_cases [of y] by auto
    ultimately show ?thesis by linarith
  qed
qed

lemma round_half_even_minus: "round_half_even (- x) = - round_half_even x"
proof (cases "x = of_int \<lfloor>x\<rfloor>")
  case True
  then obtain m where "x = of_int m" ..
  then have "- x = of_int (- m)" by simp
  then show ?thesis unfolding \<open>x = of_int m\<close> by (simp only: round_half_even_of_int)
next
  case False
  then have c: "\<lceil>x\<rceil> = \<lfloor>x\<rfloor> + 1" by (metis ceiling_altdef)
  have f: "\<lfloor>- x\<rfloor> = - \<lfloor>x\<rfloor> - 1" using c by (simp add: floor_minus)
  show ?thesis
    by (auto simp: round_half_even_def Let_def f)
qed

lemma round_half_even_nonneg: "0 \<le> x \<Longrightarrow> 0 \<le> round_half_even x"
  using round_half_even_mono [of 0 x] round_half_even_of_int [of 0] by simp


lemma binade_up_props:
  "2 powi e \<le> x \<Longrightarrow>
     e \<le> binade_up n e x \<and> binade_up n e x \<le> e + int n \<and> 2 powi binade_up n e x \<le> x \<and>
     (binade_up n e x < e + int n \<longrightarrow> x < 2 powi (binade_up n e x + 1))"
proof (induction n arbitrary: e)
  case 0
  then show ?case by simp
next
  case (Suc n)
  show ?case
  proof (cases "x < 2 powi (e + 1)")
    case True
    with Suc.prems show ?thesis by simp
  next
    case False
    then have "2 powi (e + 1) \<le> x" by simp
    from Suc.IH [OF this] False show ?thesis by auto
  qed
qed

lemma binade_down_props:
  "x < 2 powi (e + 1) \<Longrightarrow>
     e - int n \<le> binade_down n e x \<and> binade_down n e x \<le> e \<and>
     x < 2 powi (binade_down n e x + 1) \<and>
     (e - int n < binade_down n e x \<longrightarrow> 2 powi binade_down n e x \<le> x)"
proof (induction n arbitrary: e)
  case 0
  then show ?case by simp
next
  case (Suc n)
  show ?case
  proof (cases "2 powi e \<le> x")
    case True
    with Suc.prems show ?thesis by simp
  next
    case False
    then have "x < 2 powi (e - 1 + 1)" by simp
    from Suc.IH [OF this] False show ?thesis by auto
  qed
qed

lemma binade_props:
  assumes "emin \<le> 0" "0 \<le> emax"
  shows "emin \<le> binade emin emax x" and "binade emin emax x \<le> emax"
    and "emin < binade emin emax x \<Longrightarrow> 2 powi binade emin emax x \<le> x"
    and "binade emin emax x < emax \<Longrightarrow> x < 2 powi (binade emin emax x + 1)"
proof -
  let ?b = "binade emin emax x"
  have "emin \<le> ?b \<and> ?b \<le> emax \<and> (emin < ?b \<longrightarrow> 2 powi ?b \<le> x) \<and>
      (?b < emax \<longrightarrow> x < 2 powi (?b + 1))"
  proof (cases "1 \<le> x")
    case True
    then have "2 powi 0 \<le> x" by simp
    from binade_up_props [OF this, of "nat emax"] assms True show ?thesis
      by (simp add: binade_def)
  next
    case False
    then have "x < 2 powi (0 + 1)" by simp
    from binade_down_props [OF this, of "nat (- emin)"] assms False show ?thesis
      by (simp add: binade_def)
  qed
  then show "emin \<le> ?b" "?b \<le> emax" "emin < ?b \<Longrightarrow> 2 powi ?b \<le> x"
    "?b < emax \<Longrightarrow> x < 2 powi (?b + 1)"
    by blast+
qed

lemma binade_eq:
  assumes "emin \<le> 0" "0 \<le> emax" "emin \<le> e" "e \<le> emax"
    and "2 powi e \<le> x" "x < 2 powi (e + 1)"
  shows "binade emin emax x = e"
proof (rule ccontr)
  let ?b = "binade emin emax x"
  assume ne: "?b \<noteq> e"
  show False
  proof (cases "?b < e")
    case True
    then have "?b < emax" using assms(4) by simp
    then have "x < 2 powi (?b + 1)" by (rule binade_props(4) [OF assms(1,2)])
    also have "2 powi (?b + 1) \<le> (2::real) powi e"
      using True by (intro power_int_increasing) simp_all
    finally show False using assms(5) by simp
  next
    case False
    with ne have gt: "e < ?b" by simp
    then have "emin < ?b" using assms(3) by simp
    then have "2 powi ?b \<le> x" by (rule binade_props(3) [OF assms(1,2)])
    moreover have "2 powi (e + 1) \<le> (2::real) powi ?b"
      using gt by (intro power_int_increasing) simp_all
    ultimately show False using assms(6) by simp
  qed
qed

lemma binade_below:
  assumes "emin \<le> 0" "0 \<le> emax" "x < 2 powi (emin + 1)"
  shows "binade emin emax x = emin"
proof (rule ccontr)
  let ?b = "binade emin emax x"
  assume "?b \<noteq> emin"
  with binade_props(1) [OF assms(1,2), of x] have gt: "emin < ?b" by simp
  then have "2 powi ?b \<le> x" by (rule binade_props(3) [OF assms(1,2)])
  moreover have "2 powi (emin + 1) \<le> (2::real) powi ?b"
    using gt by (intro power_int_increasing) simp_all
  ultimately show False using assms(3) by simp
qed

lemma binade_mono:
  assumes "emin \<le> 0" "0 \<le> emax" "x \<le> y"
  shows "binade emin emax x \<le> binade emin emax y"
proof (rule ccontr)
  let ?b = "binade emin emax x" and ?c = "binade emin emax y"
  assume "\<not> ?b \<le> ?c"
  then have lt: "?c < ?b" by simp
  have "emin < ?b" using lt binade_props(1) [OF assms(1,2), of y] by simp
  then have "2 powi ?b \<le> x" by (rule binade_props(3) [OF assms(1,2)])
  have "?c < emax" using lt binade_props(2) [OF assms(1,2), of x] by simp
  then have "y < 2 powi (?c + 1)" by (rule binade_props(4) [OF assms(1,2)])
  also have "2 powi (?c + 1) \<le> (2::real) powi ?b"
    using lt by (intro power_int_increasing) simp_all
  finally show False using \<open>2 powi ?b \<le> x\<close> assms(3) by simp
qed


lemma round_to_minus: "round_to p emin emax (- x) = - round_to p emin emax x"
  by (simp add: round_to_def Let_def round_half_even_minus)

lemma round_to_zero [simp]: "round_to p emin emax 0 = 0"
  using round_half_even_of_int [of 0] by (simp add: round_to_def)

lemma round_to_nonneg: "0 \<le> x \<Longrightarrow> 0 \<le> round_to p emin emax x"
  by (simp add: round_to_def Let_def round_half_even_nonneg)

lemma round_to_eq:
  assumes "emin \<le> 0" "0 \<le> emax" "emin \<le> e" "e \<le> emax"
    and "2 powi e \<le> \<bar>x\<bar>" "\<bar>x\<bar> < 2 powi (e + 1)"
  shows "round_to p emin emax x =
    of_int (round_half_even (x / 2 powi (e - int p + 1))) * 2 powi (e - int p + 1)"
  using binade_eq [OF assms] by (simp add: round_to_def Let_def)

lemma round_to_subnormal:
  assumes "emin \<le> 0" "0 \<le> emax" "\<bar>x\<bar> < 2 powi (emin + 1)"
  shows "round_to p emin emax x =
    of_int (round_half_even (x / 2 powi (emin - int p + 1))) * 2 powi (emin - int p + 1)"
  using binade_below [OF assms] by (simp add: round_to_def Let_def)

lemma power_int_product:
  "(2::real) powi a * 2 powi b = 2 powi (a + b)"
  by (simp add: power_int_add)

lemma power_int_quotient:
  "(2::real) powi a / 2 powi b = 2 powi (a - b)"
  by (simp add: power_int_diff)

lemma round_to_mono_nonneg:
  assumes "emin \<le> 0" "0 \<le> emax" "1 \<le> p" "0 \<le> x" "x \<le> y"
  shows "round_to p emin emax x \<le> round_to p emin emax y"
proof -
  let ?b = "binade emin emax \<bar>x\<bar>" and ?c = "binade emin emax \<bar>y\<bar>"
  let ?qx = "(2::real) powi (?b - int p + 1)" and ?qy = "(2::real) powi (?c - int p + 1)"
  have ax: "\<bar>x\<bar> = x" and ay: "\<bar>y\<bar> = y" using assms(4,5) by simp_all
  have bc: "?b \<le> ?c" using assms(4,5) by (intro binade_mono [OF assms(1,2)]) simp
  have rx: "round_to p emin emax x = of_int (round_half_even (x / ?qx)) * ?qx"
    by (simp add: round_to_def Let_def)
  have ry: "round_to p emin emax y = of_int (round_half_even (y / ?qy)) * ?qy"
    by (simp add: round_to_def Let_def)
  show ?thesis
  proof (cases "?b = ?c")
    case True
    have "x / ?qx \<le> y / ?qx" using assms(5) by (intro divide_right_mono) simp_all
    then have "round_half_even (x / ?qx) \<le> round_half_even (y / ?qx)"
      by (rule round_half_even_mono)
    then have "of_int (round_half_even (x / ?qx)) * ?qx \<le> of_int (round_half_even (y / ?qx)) * ?qx"
      by (intro mult_right_mono) simp_all
    then show ?thesis unfolding rx ry True .
  next
    case False
    with bc have lt: "?b < ?c" by simp
    have "?b < emax" using lt binade_props(2) [OF assms(1,2), of "\<bar>y\<bar>"] by simp
    then have "\<bar>x\<bar> < 2 powi (?b + 1)" by (rule binade_props(4) [OF assms(1,2)])
    then have "x \<le> 2 powi (?b + 1)" using ax by simp
    then have "x / ?qx \<le> 2 powi (?b + 1) / ?qx" by (intro divide_right_mono) simp_all
    also have "\<dots> = 2 powi (int p)" by (simp add: power_int_quotient)
    also have "\<dots> = of_int (2 ^ p)" by simp
    finally have "round_half_even (x / ?qx) \<le> round_half_even (of_int (2 ^ p))"
      by (rule round_half_even_mono)
    then have "round_half_even (x / ?qx) \<le> 2 ^ p" by (simp only: round_half_even_of_int)
    then have "real_of_int (round_half_even (x / ?qx)) \<le> real_of_int (2 ^ p)"
      by (simp only: of_int_le_iff)
    then have "of_int (round_half_even (x / ?qx)) * ?qx \<le> real_of_int (2 ^ p) * ?qx"
      by (intro mult_right_mono) simp_all
    also have "real_of_int (2 ^ p) * ?qx = 2 powi (int p) * ?qx" by simp
    also have "\<dots> = 2 powi (int p + (?b - int p + 1))" by (rule power_int_product)
    also have "\<dots> = 2 powi (?b + 1)" by simp
    finally have up: "round_to p emin emax x \<le> 2 powi (?b + 1)" unfolding rx .
    have mid: "(2::real) powi (?b + 1) \<le> 2 powi ?c"
      using lt by (intro power_int_increasing) simp_all
    have "emin < ?c" using lt binade_props(1) [OF assms(1,2), of "\<bar>x\<bar>"] by simp
    then have "2 powi ?c \<le> \<bar>y\<bar>" by (rule binade_props(3) [OF assms(1,2)])
    then have "2 powi ?c \<le> y" using ay by simp
    then have "2 powi ?c / ?qy \<le> y / ?qy" by (intro divide_right_mono) simp_all
    moreover have "2 powi ?c / ?qy = 2 powi (int p - 1)" by (simp add: power_int_quotient)
    moreover have "(2::real) powi (int p - 1) = of_int (2 ^ (p - 1))"
      using assms(3) by (simp add: power_int_def nat_diff_distrib)
    ultimately have "of_int (2 ^ (p - 1)) \<le> y / ?qy" by simp
    then have "round_half_even (of_int (2 ^ (p - 1))) \<le> round_half_even (y / ?qy)"
      by (rule round_half_even_mono)
    then have "2 ^ (p - 1) \<le> round_half_even (y / ?qy)" by (simp only: round_half_even_of_int)
    then have "real_of_int (2 ^ (p - 1)) \<le> real_of_int (round_half_even (y / ?qy))"
      by (simp only: of_int_le_iff)
    then have ge: "real_of_int (2 ^ (p - 1)) * ?qy \<le> of_int (round_half_even (y / ?qy)) * ?qy"
      by (intro mult_right_mono) simp_all
    have "2 powi ?c = 2 powi ((int p - 1) + (?c - int p + 1))" by simp
    also have "\<dots> = 2 powi (int p - 1) * ?qy" by (rule power_int_product [symmetric])
    also have "\<dots> = real_of_int (2 ^ (p - 1)) * ?qy"
      using assms(3) by (simp add: power_int_def nat_diff_distrib)
    also note ge
    finally have lo: "2 powi ?c \<le> round_to p emin emax y" unfolding ry .
    from up mid lo show ?thesis by linarith
  qed
qed

lemma round_to_mono:
  assumes "emin \<le> 0" "0 \<le> emax" "1 \<le> p" "x \<le> y"
  shows "round_to p emin emax x \<le> round_to p emin emax y"
proof (cases "0 \<le> x")
  case True
  with assms show ?thesis by (intro round_to_mono_nonneg) simp_all
next
  case False
  show ?thesis
  proof (cases "0 \<le> y")
    case True
    have "round_to p emin emax x = - round_to p emin emax (- x)"
      using round_to_minus [of p emin emax "- x"] by simp
    moreover have "0 \<le> round_to p emin emax (- x)" using False by (intro round_to_nonneg) simp
    moreover have "0 \<le> round_to p emin emax y" using True by (rule round_to_nonneg)
    ultimately show ?thesis by linarith
  next
    case y: False
    have "round_to p emin emax (- y) \<le> round_to p emin emax (- x)"
      using assms y by (intro round_to_mono_nonneg) simp_all
    then show ?thesis by (simp add: round_to_minus)
  qed
qed


lemma round_half_even_eqI:
  assumes "of_int m - 1 / 2 < x" "x < of_int m + 1 / 2"
  shows "round_half_even x = m"
proof -
  have "\<bar>of_int (round_half_even x) - x\<bar> \<le> 1 / 2" by (rule round_half_even_error)
  then have "real_of_int (round_half_even x) < of_int m + 1"
    "real_of_int m - 1 < of_int (round_half_even x)"
    using assms by linarith+
  then have "real_of_int (round_half_even x) < of_int (m + 1)"
    "real_of_int (m - 1) < of_int (round_half_even x)"
    by simp_all
  then have "round_half_even x < m + 1" "m - 1 < round_half_even x"
    by (simp_all only: of_int_less_iff)
  then show ?thesis by simp
qed

lemma round_to_of_int_pos:
  assumes "emin \<le> 0" "0 \<le> emax" "0 < k" "k < 2 ^ p"
  shows "round_to p emin emax (of_int k) = of_int k"
proof -
  let ?b = "binade emin emax \<bar>real_of_int k\<bar>"
  have "?b < int p"
  proof (rule ccontr)
    assume "\<not> ?b < int p"
    then have ge: "int p \<le> ?b" by simp
    then have "emin < ?b" using assms(1,3,4) by (cases "p = 0") auto
    then have "2 powi ?b \<le> \<bar>real_of_int k\<bar>" by (rule binade_props(3) [OF assms(1,2)])
    moreover have "(2::real) powi (int p) \<le> 2 powi ?b"
      using ge by (intro power_int_increasing) simp_all
    ultimately have "(2::real) powi (int p) \<le> \<bar>real_of_int k\<bar>" by linarith
    then have "(2::real) ^ p \<le> real_of_int k" using assms(3) by simp
    then have "real_of_int (2 ^ p) \<le> real_of_int k" by simp
    then have "2 ^ p \<le> k" by (simp only: of_int_le_iff)
    with assms(4) show False by simp
  qed
  define n where "n = nat (int p - 1 - ?b)"
  have e: "?b - int p + 1 = - int n" using \<open>?b < int p\<close> by (simp add: n_def)
  have q: "(2::real) powi (?b - int p + 1) = 1 / 2 ^ n"
    unfolding e by (simp add: power_int_minus_divide)
  have "real_of_int k / (1 / 2 ^ n) = real_of_int (k * 2 ^ n)" by simp
  then have "round_half_even (real_of_int k / (1 / 2 ^ n)) = k * 2 ^ n"
    by (simp only: round_half_even_of_int)
  then show ?thesis
    by (simp add: round_to_def Let_def q)
qed

lemma round_to_of_int:
  assumes "emin \<le> 0" "0 \<le> emax" "\<bar>k\<bar> < 2 ^ p"
  shows "round_to p emin emax (of_int k) = of_int k"
proof -
  consider "k = 0" | "0 < k" | "k < 0" by linarith
  then show ?thesis
  proof cases
    case 1
    then show ?thesis by simp
  next
    case 2
    with assms show ?thesis by (intro round_to_of_int_pos) simp_all
  next
    case 3
    with assms have "round_to p emin emax (of_int (- k)) = of_int (- k)"
      by (intro round_to_of_int_pos) simp_all
    then show ?thesis by (simp add: round_to_minus)
  qed
qed

lemma round_to_error:
  assumes "emin \<le> 0" "0 \<le> emax"
  shows "\<bar>round_to p emin emax x - x\<bar> \<le> \<bar>x\<bar> / 2 ^ p + 2 powi (emin - int p)"
proof -
  let ?b = "binade emin emax \<bar>x\<bar>"
  let ?q = "(2::real) powi (?b - int p + 1)"
  have q0: "0 < ?q" by simp
  have "round_to p emin emax x - x = (of_int (round_half_even (x / ?q)) - x / ?q) * ?q"
    by (simp add: round_to_def Let_def algebra_simps)
  then have "\<bar>round_to p emin emax x - x\<bar> = \<bar>of_int (round_half_even (x / ?q)) - x / ?q\<bar> * ?q"
    using q0 by (simp add: abs_mult)
  also have "\<dots> \<le> 1 / 2 * ?q"
    using round_half_even_error [of "x / ?q"] by (intro mult_right_mono) simp_all
  also have "1 / 2 * ?q = 2 powi (?b - int p)"
  proof -
    have "?q = 2 powi (?b - int p) * 2 powi 1" by (simp only: power_int_product)
    then show ?thesis by simp
  qed
  finally have half: "\<bar>round_to p emin emax x - x\<bar> \<le> 2 powi (?b - int p)" .
  show ?thesis
  proof (cases "emin < ?b")
    case True
    then have "2 powi ?b \<le> \<bar>x\<bar>" by (rule binade_props(3) [OF assms])
    then have "2 powi ?b / 2 ^ p \<le> \<bar>x\<bar> / 2 ^ p" by (intro divide_right_mono) simp_all
    moreover have "(2::real) powi (?b - int p) = 2 powi ?b / 2 ^ p"
      by (simp add: power_int_diff)
    moreover have "(0::real) \<le> 2 powi (emin - int p)" by simp
    ultimately show ?thesis using half by linarith
  next
    case False
    with binade_props(1) [OF assms, of "\<bar>x\<bar>"] have "?b = emin" by simp
    with half have "\<bar>round_to p emin emax x - x\<bar> \<le> 2 powi (emin - int p)" by simp
    moreover have "0 \<le> \<bar>x\<bar> / 2 ^ p" by simp
    ultimately show ?thesis by linarith
  qed
qed

lemma to_double_mono: "x \<le> y \<Longrightarrow> to_double x \<le> to_double y"
  unfolding to_double_def by (rule round_to_mono) simp_all

lemma to_float_mono: "x \<le> y \<Longrightarrow> to_float x \<le> to_float y"
  unfolding to_float_def by (rule round_to_mono) simp_all

lemma to_double_of_int: "\<bar>k\<bar> < 2 ^ 53 \<Longrightarrow> to_double (of_int k) = of_int k"
  unfolding to_double_def by (rule round_to_of_int) simp_all

lemma to_float_of_int: "\<bar>k\<bar> < 2 ^ 24 \<Longrightarrow> to_float (of_int k) = of_int k"
  unfolding to_float_def by (rule round_to_of_int) simp_all

lemma to_double_error: "\<bar>to_double x - x\<bar> \<le> \<bar>x\<bar> / 2 ^ 53 + 1 / 2 ^ 1075"
  using round_to_error [of "- 1022" 1023 53 x] by (simp add: to_double_def power_int_minus_divide)

lemma to_float_error: "\<bar>to_float x - x\<bar> \<le> \<bar>x\<bar> / 2 ^ 24 + 1 / 2 ^ 150"
  using round_to_error [of "- 126" 127 24 x] by (simp add: to_float_def power_int_minus_divide)

lemma to_double_eq:
  assumes "- 1022 \<le> e" "e \<le> 1023" "2 powi e \<le> \<bar>x\<bar>" "\<bar>x\<bar> < 2 powi (e + 1)"
    and "of_int m - 1 / 2 < x / 2 powi (e - 52)" "x / 2 powi (e - 52) < of_int m + 1 / 2"
  shows "to_double x = of_int m * 2 powi (e - 52)"
proof -
  have "round_half_even (x / 2 powi (e - 52)) = m"
    using assms(5,6) by (rule round_half_even_eqI)
  moreover have "to_double x =
      of_int (round_half_even (x / 2 powi (e - int 53 + 1))) * 2 powi (e - int 53 + 1)"
    unfolding to_double_def using assms(1-4) by (intro round_to_eq) simp_all
  ultimately show ?thesis by simp
qed

lemma to_float_eq:
  assumes "- 126 \<le> e" "e \<le> 127" "2 powi e \<le> \<bar>x\<bar>" "\<bar>x\<bar> < 2 powi (e + 1)"
    and "of_int m - 1 / 2 < x / 2 powi (e - 23)" "x / 2 powi (e - 23) < of_int m + 1 / 2"
  shows "to_float x = of_int m * 2 powi (e - 23)"
proof -
  have "round_half_even (x / 2 powi (e - 23)) = m"
    using assms(5,6) by (rule round_half_even_eqI)
  moreover have "to_float x =
      of_int (round_half_even (x / 2 powi (e - int 24 + 1))) * 2 powi (e - int 24 + 1)"
    unfolding to_float_def using assms(1-4) by (intro round_to_eq) simp_all
  ultimately show ?thesis by simp
qed

lemma to_double_minus: "to_double (- x) = - to_double x"
  unfolding to_double_def by (rule round_to_minus)

lemma to_float_minus: "to_float (- x) = - to_float x"
  unfolding to_float_def by (rule round_to_minus)

lemma to_double_zero [simp]: "to_double 0 = 0"
  by (simp add: to_double_def)

text \<open>The rounded values that the examples below need.\<close>

lemma to_double_200th: "to_double (1 / 200) = 5764607523034235 / 2 ^ 60"
  using to_double_eq [of "- 8" "1 / 200" 5764607523034235] by simp

lemma to_float_200th: "to_float (5764607523034235 / 2 ^ 60) = 5368709 / 2 ^ 30"
  using to_float_eq [of "- 8" "5764607523034235 / 2 ^ 60" 10737418] by simp

lemma sample_200th: "to_float (to_double (1 / 200)) = 5368709 / 2 ^ 30"
  by (simp only: to_double_200th to_float_200th)

lemma sample_minus_200th: "to_float (to_double (- 1 / 200)) = - (5368709 / 2 ^ 30)"
proof -
  have "(- 1 / 200 :: real) = - (1 / 200)" by simp
  then show ?thesis by (simp only: to_double_minus to_float_minus sample_200th)
qed

lemma to_double_half: "to_double (1 / 2) = 1 / 2"
  using to_double_eq [of "- 1" "1 / 2" 4503599627370496] by simp

lemma to_float_half: "to_float (1 / 2) = 1 / 2"
  using to_float_eq [of "- 1" "1 / 2" 8388608] by simp

lemma sample_half: "to_float (to_double (1 / 2)) = 1 / 2"
  by (simp only: to_double_half to_float_half)

lemma sample_minus_half: "to_float (to_double (- (1 / 2))) = - (1 / 2)"
  by (simp only: to_double_minus to_float_minus sample_half)

lemma sample_quarter: "to_float (to_double (1 / 4)) = 1 / 4"
proof -
  have a: "to_double (1 / 4) = 1 / 4"
    using to_double_eq [of "- 2" "1 / 4" 4503599627370496] by simp
  have b: "to_float (1 / 4) = 1 / 4"
    using to_float_eq [of "- 2" "1 / 4" 8388608] by simp
  show ?thesis by (simp only: a b)
qed

lemma to_double_float_max: "to_double float_max = float_max"
  using to_double_eq [of 127 float_max 9007198717870080] by (simp add: float_max_def)

lemma to_float_float_max: "to_float float_max = float_max"
  using to_float_eq [of 127 float_max 16777215] by (simp add: float_max_def)

text \<open>
  A quotient computed in double and stored as float: the relative error is below
  \<open>2 ^ -23\<close> (plus the spacing of the subnormal floats), and a quotient within the range
  of float stays there.
\<close>

lemma sample_error:
  "\<bar>to_float (to_double y) - y\<bar> \<le> \<bar>y\<bar> / 2 ^ 23 + 1 / 2 ^ 149"
proof -
  define e :: real where "e = 1 / 2 ^ 1075"
  define z where "z = to_double y"
  have e: "0 \<le> e" "e \<le> 1 / 2 ^ 151" by (simp_all add: e_def)
  have d: "\<bar>z - y\<bar> \<le> \<bar>y\<bar> / 2 ^ 53 + e"
    unfolding z_def e_def by (rule to_double_error)
  have f: "\<bar>to_float z - z\<bar> \<le> \<bar>z\<bar> / 2 ^ 24 + 1 / 2 ^ 150"
    by (rule to_float_error)
  have "\<bar>z\<bar> \<le> \<bar>y\<bar> + \<bar>z - y\<bar>" by simp
  with d have z: "\<bar>z\<bar> \<le> \<bar>y\<bar> + \<bar>y\<bar> / 2 ^ 53 + e" by linarith
  have "\<bar>z\<bar> / 2 ^ 24 \<le> (\<bar>y\<bar> + \<bar>y\<bar> / 2 ^ 53 + e) / 2 ^ 24"
    using z by (intro divide_right_mono) simp_all
  with f have "\<bar>to_float z - z\<bar> \<le> (\<bar>y\<bar> + \<bar>y\<bar> / 2 ^ 53 + e) / 2 ^ 24 + 1 / 2 ^ 150"
    by linarith
  moreover have "\<bar>to_float z - y\<bar> \<le> \<bar>to_float z - z\<bar> + \<bar>z - y\<bar>" by simp
  ultimately have "\<bar>to_float z - y\<bar> \<le>
      (\<bar>y\<bar> + \<bar>y\<bar> / 2 ^ 53 + e) / 2 ^ 24 + 1 / 2 ^ 150 + (\<bar>y\<bar> / 2 ^ 53 + e)"
    using d by linarith
  also have "\<dots> \<le> \<bar>y\<bar> / 2 ^ 23 + 1 / 2 ^ 149"
  proof -
    define a where "a = \<bar>y\<bar>"
    have a: "0 \<le> a" by (simp add: a_def)
    have "(a + a / 2 ^ 53 + e) / 2 ^ 24 + 1 / 2 ^ 150 + (a / 2 ^ 53 + e) =
        a * (1 / 2 ^ 24 + 1 / 2 ^ 77 + 1 / 2 ^ 53) + e * (1 + 1 / 2 ^ 24) + 1 / 2 ^ 150"
      by (simp add: algebra_simps add_divide_distrib)
    moreover have "a * (1 / 2 ^ 24 + 1 / 2 ^ 77 + 1 / 2 ^ 53) \<le> a * (1 / 2 ^ 23)"
      using a by (intro mult_left_mono) simp_all
    moreover have "e * (1 + 1 / 2 ^ 24) \<le> 1 / 2 ^ 151 * 2"
      using e by (intro mult_mono) simp_all
    ultimately have "(a + a / 2 ^ 53 + e) / 2 ^ 24 + 1 / 2 ^ 150 + (a / 2 ^ 53 + e) \<le>
        a / 2 ^ 23 + 1 / 2 ^ 149"
      by simp
    then show ?thesis by (simp only: a_def)
  qed
  finally show ?thesis by (simp only: z_def)
qed

lemma sample_range:
  assumes "\<bar>y\<bar> \<le> float_max"
  shows "\<bar>to_float (to_double y)\<bar> \<le> float_max"
proof -
  have "to_double y \<le> to_double float_max" "to_double (- float_max) \<le> to_double y"
    using assms by (intro to_double_mono; simp)+
  then have "to_double y \<le> float_max" "- float_max \<le> to_double y"
    by (simp_all add: to_double_minus to_double_float_max)
  then have "to_float (to_double y) \<le> to_float float_max"
    "to_float (- float_max) \<le> to_float (to_double y)"
    by (intro to_float_mono; simp)+
  then show ?thesis
    by (simp add: to_float_minus to_float_float_max)
qed

subsection \<open>The sample processor\<close>

declare process_loop.simps [simp del]

lemma process_loop_eq:
  "f \<le> length data \<Longrightarrow>
     process_loop s f data =
       take f data @ map (\<lambda>x. to_float (to_double (x / vol_reduction s))) (drop f data)"
proof (induction s f data rule: process_loop.induct)
  case (1 s f data)
  show ?case
  proof (cases "f < length data")
    case True
    let ?d = "data[f := to_float (to_double (data ! f / vol_reduction s))]"
    let ?g = "\<lambda>x. to_float (to_double (x / vol_reduction s))"
    have "process_loop s f data = process_loop s (Suc f) ?d"
      using True by (subst process_loop.simps) simp
    also have "\<dots> = take (Suc f) ?d @ map ?g (drop (Suc f) ?d)"
      using True by (intro "1.IH") simp_all
    also have "\<dots> = take f data @ map ?g (drop f data)"
      using True by (simp add: take_Suc_conv_app_nth Cons_nth_drop_Suc [symmetric])
    finally show ?thesis .
  next
    case False
    with "1.prems" have "f = length data" by simp
    then show ?thesis by (subst process_loop.simps) simp
  qed
qed

lemma process_map:
  "process s data =
     (if vol_reduction s \<noteq> 1
      then map (\<lambda>x. to_float (to_double (x / vol_reduction s))) data else data)"
  by (simp add: process_def process_loop_eq)

lemma process_vol_cong:
  "vol_reduction s' = vol_reduction s \<Longrightarrow> process s' data = process s data"
  by (simp add: process_map)

text \<open>
  Claim C2. \<open>process\<close> returns the buffer it was given, of the same length: with
  \<open>vol_reduction = 1\<close> the samples are the input samples, untouched; otherwise every
  sample is the input sample divided by \<open>vol_reduction\<close>, the quotient computed in
  double and stored as float, so that it is the exact quotient up to a relative error of
  \<open>2 ^ -23\<close> (and the spacing \<open>2 ^ -149\<close> of the smallest floats); with a gain of at
  least 1 the samples stay within the range of float; the empty buffer comes back empty
  in both states.
\<close>

theorem process_returns_buffer:
  "(vol_reduction s = 1 \<longrightarrow> process s data = data) \<and>
   (vol_reduction s \<noteq> 1 \<longrightarrow>
      process s data = map (\<lambda>x. to_float (to_double (x / vol_reduction s))) data) \<and>
   length (process s data) = length data \<and>
   process s [] = [] \<and>
   (\<forall>i < length data.
      \<bar>process s data ! i - data ! i / vol_reduction s\<bar> \<le>
        \<bar>data ! i / vol_reduction s\<bar> / 2 ^ 23 + 1 / 2 ^ 149) \<and>
   (1 \<le> vol_reduction s \<and> (\<forall>x \<in> set data. \<bar>x\<bar> \<le> float_max) \<longrightarrow>
      (\<forall>y \<in> set (process s data). \<bar>y\<bar> \<le> float_max))"
proof (intro conjI impI allI ballI)
  show "length (process s data) = length data" "process s [] = []"
    by (simp_all add: process_map)
next
  assume "vol_reduction s = 1"
  then show "process s data = data" by (simp add: process_map)
next
  assume "vol_reduction s \<noteq> 1"
  then show "process s data = map (\<lambda>x. to_float (to_double (x / vol_reduction s))) data"
    by (simp add: process_map)
next
  fix i assume "i < length data"
  then show "\<bar>process s data ! i - data ! i / vol_reduction s\<bar> \<le>
      \<bar>data ! i / vol_reduction s\<bar> / 2 ^ 23 + 1 / 2 ^ 149"
    using sample_error [of "data ! i / vol_reduction s"] by (simp add: process_map)
next
  fix y
  assume a: "1 \<le> vol_reduction s \<and> (\<forall>x \<in> set data. \<bar>x\<bar> \<le> float_max)"
    and y: "y \<in> set (process s data)"
  show "\<bar>y\<bar> \<le> float_max"
  proof (cases "vol_reduction s = 1")
    case True
    with a y show ?thesis by (simp add: process_map)
  next
    case False
    with y obtain x where x: "x \<in> set data" "y = to_float (to_double (x / vol_reduction s))"
      by (auto simp: process_map)
    have "\<bar>x / vol_reduction s\<bar> = \<bar>x\<bar> / vol_reduction s" using a by simp
    also have "\<dots> \<le> \<bar>x\<bar> / 1" using a by (intro divide_left_mono) simp_all
    also have "\<dots> \<le> float_max" using a x(1) by simp
    finally show ?thesis unfolding x(2) by (rule sample_range)
  qed
qed

theorem process_returns_buffer_witness:
  "process (initial_state\<lparr>vol_reduction := 200\<rparr>) [1, - 1] =
     [5368709 / 2 ^ 30, - (5368709 / 2 ^ 30)] \<and>
   process initial_state [1, - 1] = [1, - 1] \<and>
   process (initial_state\<lparr>vol_reduction := 200\<rparr>) [] = [] \<and>
   process initial_state [] = [] \<and>
   \<bar>5368709 / 2 ^ 30 - 1 / 200\<bar> \<le> \<bar>1 / 200 :: real\<bar> / 2 ^ 23 + 1 / 2 ^ 149"
proof -
  let ?s = "initial_state\<lparr>vol_reduction := 200\<rparr>"
  have v: "vol_reduction ?s \<noteq> 1" "vol_reduction initial_state = 1"
    by (simp_all add: initial_state_def)
  have "process ?s [1, - 1] = map (\<lambda>x. to_float (to_double (x / vol_reduction ?s))) [1, - 1]"
    using process_returns_buffer [of ?s "[1, - 1]"] v(1) by blast
  also have "\<dots> = [to_float (to_double (1 / 200)), to_float (to_double (- 1 / 200))]"
    by simp
  finally have a: "process ?s [1, - 1] = [5368709 / 2 ^ 30, - (5368709 / 2 ^ 30)]"
    by (simp only: sample_200th sample_minus_200th)
  have b: "process initial_state [1, - 1] = [1, - 1]"
    using process_returns_buffer [of initial_state "[1, - 1]"] v(2) by blast
  have c: "process ?s [] = []" "process initial_state [] = []"
    using process_returns_buffer [of ?s "[]"] process_returns_buffer [of initial_state "[]"]
    by blast+
  have "(0::nat) < length [1, - 1 :: real]" by simp
  with process_returns_buffer [of ?s "[1, - 1]"]
  have "\<bar>process ?s [1, - 1] ! 0 - [1, - 1] ! 0 / vol_reduction ?s\<bar> \<le>
      \<bar>[1, - 1] ! 0 / vol_reduction ?s\<bar> / 2 ^ 23 + 1 / 2 ^ 149"
    by blast
  then have d: "\<bar>5368709 / 2 ^ 30 - 1 / 200\<bar> \<le> \<bar>1 / 200 :: real\<bar> / 2 ^ 23 + 1 / 2 ^ 149"
    unfolding a by simp
  from a b c d show ?thesis by (intro conjI)
qed

subsection \<open>Events of the other threads\<close>

lemma host_events_Nil [simp]: "host_events [] s = s"
  by (simp add: host_events_def)

lemma host_events_Cons [simp]:
  "host_events (e # evs) s = host_events evs (apply_host_event e s)"
  by (simp add: host_events_def)

lemma host_events_append [simp]:
  "host_events (evs @ evs') s = host_events evs' (host_events evs s)"
  by (simp add: host_events_def)

lemma apply_host_event_vol:
  "vol_reduction (apply_host_event e s) = vol_reduction s \<or>
   vol_reduction (apply_host_event e s) = 1"
  by (cases e)
    (simp_all add: idle_dispatch_def stop_playback_and_fading_cb_def cleanup_def start_def
      finish_def stop_playback_and_fading_def Let_def)

lemma host_events_vol:
  "vol_reduction (host_events evs s) = vol_reduction s \<or> vol_reduction (host_events evs s) = 1"
proof (induction evs arbitrary: s)
  case Nil
  show ?case by simp
next
  case (Cons e evs)
  from Cons.IH [of "apply_host_event e s"] apply_host_event_vol [of e s]
  show ?case by auto
qed

lemma host_events_ge_1:
  "1 \<le> vol_reduction s \<Longrightarrow> 1 \<le> vol_reduction (host_events evs s)"
  using host_events_vol [of evs s] by auto

lemma host_events_stays_1:
  "vol_reduction s = 1 \<Longrightarrow> vol_reduction (host_events evs s) = 1"
  using host_events_vol [of evs s] by auto

lemma host_events_cleanup:
  "Plugin_cleanup \<in> set evs \<Longrightarrow> vol_reduction (host_events evs s) = 1"
proof (induction evs arbitrary: s)
  case Nil
  then show ?case by simp
next
  case (Cons e evs)
  show ?case
  proof (cases "e = Plugin_cleanup")
    case True
    then show ?thesis by (simp add: cleanup_def host_events_stays_1)
  next
    case False
    with Cons.prems have "Plugin_cleanup \<in> set evs" by simp
    then show ?thesis by (simp add: Cons.IH)
  qed
qed

subsection \<open>The step factor\<close>

lemma amount_gt_1:
  assumes "1 \<le> d" "d \<le> 10"
  shows "1 < calculate_vol_reduction_amount d"
proof -
  have "0 < 1 / (100 * d)" using assms by simp
  then have "(200::real) powr 0 < 200 powr (1 / (100 * d))"
    by (intro powr_less_mono) simp_all
  then show ?thesis
    by (simp add: calculate_vol_reduction_amount_def)
qed

lemma amount_lt_max:
  assumes "1 \<le> d"
  shows "calculate_vol_reduction_amount d < MAX_VOL_REDUCTION"
proof -
  have "1 / (100 * d) < 1" using assms by simp
  then have "(200::real) powr (1 / (100 * d)) < 200 powr 1"
    by (intro powr_less_mono) simp_all
  then show ?thesis
    by (simp add: calculate_vol_reduction_amount_def)
qed

lemma amount_power:
  "calculate_vol_reduction_amount d ^ n = MAX_VOL_REDUCTION powr (real n / (100 * d))"
proof -
  have "calculate_vol_reduction_amount d ^ n =
      (MAX_VOL_REDUCTION powr (1 / (100 * d))) powr real n"
    by (simp add: calculate_vol_reduction_amount_def powr_realpow [symmetric])
  also have "\<dots> = MAX_VOL_REDUCTION powr (1 / (100 * d) * real n)"
    by (simp only: powr_powr)
  finally show ?thesis by simp
qed

lemma amount_power_lt_max:
  assumes "0 < d" "real n < 100 * d"
  shows "calculate_vol_reduction_amount d ^ n < MAX_VOL_REDUCTION"
proof -
  have "real n / (100 * d) < 1" using assms by simp
  then have "(200::real) powr (real n / (100 * d)) < 200 powr 1"
    by (intro powr_less_mono) simp_all
  then show ?thesis by (simp add: amount_power)
qed

lemma amount_power_ge_max:
  assumes "0 < d" "100 * d \<le> real n"
  shows "MAX_VOL_REDUCTION \<le> calculate_vol_reduction_amount d ^ n"
proof -
  have "1 \<le> real n / (100 * d)" using assms by simp
  then have "(200::real) powr 1 \<le> 200 powr (real n / (100 * d))"
    by (intro powr_mono) simp_all
  then show ?thesis by (simp add: amount_power)
qed

subsection \<open>The sleep bookkeeping\<close>

lemma truncation_ge:
  fixes x :: real
  assumes "real_of_int a \<le> x"
  shows "a \<le> (if 0 \<le> x then \<lfloor>x\<rfloor> else \<lceil>x\<rceil>)"
  using assms by (auto simp: le_floor_iff le_ceiling_iff)

lemma truncation_le:
  fixes x :: real
  assumes "x \<le> real_of_int b"
  shows "(if 0 \<le> x then \<lfloor>x\<rfloor> else \<lceil>x\<rceil>) \<le> b"
  using assms by (auto simp: floor_le_iff ceiling_le_iff)

lemma truncation_error:
  fixes x :: real
  shows "\<bar>real_of_int (if 0 \<le> x then \<lfloor>x\<rfloor> else \<lceil>x\<rceil>) - x\<bar> < 1"
proof (cases "0 \<le> x")
  case True
  then show ?thesis by simp linarith
next
  case False
  then show ?thesis by simp linarith
qed

lemma double_to_gint32_Some:
  "double_to_gint32 x = Some i \<Longrightarrow> i = (if 0 \<le> x then \<lfloor>x\<rfloor> else \<lceil>x\<rceil>) \<and> in_gint32 i"
  by (auto simp: double_to_gint32_def Let_def split: if_splits)

lemma double_to_gint32_of_int:
  "double_to_gint32 (real_of_int k) = Some i \<Longrightarrow> i = k"
  by (auto simp: double_to_gint32_def Let_def split: if_splits)

lemma to_double_numeral:
  "numeral n < (2 ^ 53 :: int) \<Longrightarrow> to_double (numeral n) = numeral n"
  using to_double_of_int [of "numeral n"] by simp

lemma to_double_neg_numeral:
  "numeral n < (2 ^ 53 :: int) \<Longrightarrow> to_double (- numeral n) = - numeral n"
  by (simp only: to_double_minus to_double_numeral)

lemma sleep_accounting_Some:
  assumes "sleep_accounting l elapsed = Some l'"
  obtains diff where
    "double_to_gint32
       (to_double (to_double (1000000 * elapsed) - real_of_int (target l))) = Some diff"
    "remaining l' = 10000 - diff + (if remaining l < 0 then remaining l else 0)"
    "target l' = to_guint16 (if remaining l' < 0 then 0 else remaining l')"
    "vol_reduction_amount l' = vol_reduction_amount l"
  using assms
  by (auto simp: sleep_accounting_def gint32_arith_def split: option.splits if_splits)

lemma sleep_accounting_amount:
  "sleep_accounting l elapsed = Some l1 \<Longrightarrow> vol_reduction_amount l1 = vol_reduction_amount l"
  by (auto simp: sleep_accounting_def split: option.splits)

text \<open>
  The double that the bookkeeping converts to \<open>gint32\<close> lies where the exact difference
  lies: rounding keeps the order and leaves whole numbers below \<open>2 ^ 53\<close> as they are.
\<close>

lemma rounded_difference_ge:
  assumes "\<bar>a\<bar> < 2 ^ 53" "\<bar>a - t\<bar> < 2 ^ 53" "real_of_int a \<le> x"
  shows "real_of_int (a - t) \<le> to_double (to_double x - real_of_int t)"
proof -
  have "to_double (real_of_int a) \<le> to_double x" using assms(3) by (rule to_double_mono)
  then have "real_of_int a \<le> to_double x" unfolding to_double_of_int [OF assms(1)] .
  then have "real_of_int (a - t) \<le> to_double x - real_of_int t" by simp
  then have "to_double (real_of_int (a - t)) \<le> to_double (to_double x - real_of_int t)"
    by (rule to_double_mono)
  then show ?thesis unfolding to_double_of_int [OF assms(2)] .
qed

lemma rounded_difference_le:
  assumes "\<bar>b\<bar> < 2 ^ 53" "\<bar>b - t\<bar> < 2 ^ 53" "x \<le> real_of_int b"
  shows "to_double (to_double x - real_of_int t) \<le> real_of_int (b - t)"
proof -
  have "to_double x \<le> to_double (real_of_int b)" using assms(3) by (rule to_double_mono)
  then have "to_double x \<le> real_of_int b" unfolding to_double_of_int [OF assms(1)] .
  then have "to_double x - real_of_int t \<le> real_of_int (b - t)" by simp
  then have "to_double (to_double x - real_of_int t) \<le> to_double (real_of_int (b - t))"
    by (rule to_double_mono)
  then show ?thesis unfolding to_double_of_int [OF assms(2)] .
qed

lemma sleep_accounting_defined:
  assumes "0 \<le> target l" "target l \<le> 65535" "- 1000000000 \<le> remaining l"
    and "real_of_int (target l) - 55000 \<le> 1000000 * elapsed" "elapsed \<le> 1000"
  shows "\<exists>l'. sleep_accounting l elapsed = Some l'"
proof -
  let ?x = "to_double (to_double (1000000 * elapsed) - real_of_int (target l))"
  let ?i = "if 0 \<le> ?x then \<lfloor>?x\<rfloor> else \<lceil>?x\<rceil>"
  have lo: "real_of_int (target l - 55000) \<le> 1000000 * elapsed" using assms(4) by simp
  have hi: "1000000 * elapsed \<le> real_of_int 1000000000" using assms(5) by simp
  have "real_of_int (target l - 55000 - target l) \<le> ?x"
    using assms(1,2) by (intro rounded_difference_ge [OF _ _ lo]) simp_all
  then have x1: "real_of_int (- 55000) \<le> ?x" by simp
  have "?x \<le> real_of_int (1000000000 - target l)"
    using assms(1,2) by (intro rounded_difference_le [OF _ _ hi]) simp_all
  also have "\<dots> \<le> real_of_int 1000000000" using assms(1) by simp
  finally have x2: "?x \<le> real_of_int 1000000000" .
  note x = x1 x2
  define i where "i = ?i"
  have i: "- 55000 \<le> i" "i \<le> 1000000000"
    unfolding i_def using truncation_ge [OF x(1)] truncation_le [OF x(2)] by blast+
  have "in_gint32 i" using i by (simp add: in_gint32_def)
  then have d: "double_to_gint32 ?x = Some i"
    unfolding double_to_gint32_def Let_def i_def by simp
  have a: "gint32_arith (10000 - i) = Some (10000 - i)"
    using i by (simp add: gint32_arith_def in_gint32_def)
  define r where "r = 10000 - i + (if remaining l < 0 then remaining l else 0)"
  have "- 2147483648 \<le> r" "r \<le> 2147483647"
    using i assms(3) by (simp_all add: r_def)
  then have r: "gint32_arith (10000 - i + (if remaining l < 0 then remaining l else 0)) = Some r"
    by (simp add: gint32_arith_def in_gint32_def r_def)
  show ?thesis
    unfolding sleep_accounting_def by (simp only: d a r option.case) blast
qed

text \<open>
  A sleep of exactly the 10000 microseconds asked for: the timer shows the double
  nearest to \<open>0.01\<close>, its product with \<open>1000000.0\<close> is rounded to 10000, and the target
  stays at 10000.
\<close>

lemma to_double_100th: "to_double (1 / 100) = 5764607523034235 / 2 ^ 59"
  using to_double_eq [of "- 7" "1 / 100" 5764607523034235] by simp

lemma to_double_10000: "to_double (1000000 * (5764607523034235 / 2 ^ 59)) = 10000"
  using to_double_eq [of 13 "1000000 * (5764607523034235 / 2 ^ 59)" 5497558138880000] by simp

lemma ten_milliseconds_product: "to_double (1000000 * ten_milliseconds) = 10000"
  by (simp only: ten_milliseconds_def to_double_100th to_double_10000)

lemma sleep_accounting_on_time_general:
  assumes "target l = 10000" "0 \<le> remaining l"
  shows "sleep_accounting l ten_milliseconds = Some (l\<lparr>remaining := 10000, target := 10000\<rparr>)"
  using assms
  by (simp add: sleep_accounting_def ten_milliseconds_product double_to_gint32_def
      gint32_arith_def in_gint32_def to_guint16_def)

lemma sleep_accounting_on_time:
  "sleep_accounting \<lparr>vol_reduction_amount = a, target = 10000, remaining = 0\<rparr> ten_milliseconds =
     Some \<lparr>vol_reduction_amount = a, target = 10000, remaining = 10000\<rparr>"
  by (simp add: sleep_accounting_def ten_milliseconds_product double_to_gint32_def
      gint32_arith_def in_gint32_def to_guint16_def)

text \<open>Two more readings: 10500 microseconds and 200 microseconds.\<close>

lemma to_double_10500:
  "to_double (1000000 * to_double (21 / 2000)) = 10500"
proof -
  have a: "to_double (21 / 2000) = 6052837899185947 / 2 ^ 59"
    using to_double_eq [of "- 7" "21 / 2000" 6052837899185947] by simp
  have b: "to_double (1000000 * (6052837899185947 / 2 ^ 59)) = 10500"
    using to_double_eq [of 13 "1000000 * (6052837899185947 / 2 ^ 59)" 5772436045824000]
    by simp
  show ?thesis by (simp only: a b)
qed

lemma to_double_200:
  "to_double (1000000 * to_double (1 / 5000)) = 200"
proof -
  have a: "to_double (1 / 5000) = 7378697629483821 / 2 ^ 65"
    using to_double_eq [of "- 13" "1 / 5000" 7378697629483821] by simp
  have b: "to_double (1000000 * (7378697629483821 / 2 ^ 65)) = 200"
    using to_double_eq [of 7 "1000000 * (7378697629483821 / 2 ^ 65)" 7036874417766400]
    by simp
  show ?thesis by (simp only: a b)
qed

lemma rounded_reading_nonneg: "0 \<le> x \<Longrightarrow> 0 \<le> 1000000 * to_double x"
  using to_double_mono [of 0 x] by simp

lemma sleep_accounting_rounded_difference:
  assumes "double_to_gint32 (to_double (to_double P - real_of_int t)) = Some diff"
    and "0 \<le> t" "t \<le> 65535"
  shows "\<bar>real_of_int diff - (P - real_of_int t)\<bar> < 1 + 1 / 100000"
    and "to_double P = real_of_int k \<Longrightarrow> diff = k - t"
proof -
  define z1 where "z1 = to_double P"
  define w where "w = z1 - real_of_int t"
  define z2 where "z2 = to_double w"
  define eps :: real where "eps = 1 / 2 ^ 1075"
  define aw where "aw = \<bar>w\<bar>"
  define aP where "aP = \<bar>P\<bar>"
  have eps: "0 \<le> eps" "eps \<le> 1 / 1000000" by (simp_all add: eps_def)
  from double_to_gint32_Some [OF assms(1)]
  have dv: "diff = (if 0 \<le> z2 then \<lfloor>z2\<rfloor> else \<lceil>z2\<rceil>)" and range: "in_gint32 diff"
    unfolding z2_def w_def z1_def by blast+
  have tr: "\<bar>real_of_int diff - z2\<bar> < 1"
    unfolding dv by (rule truncation_error)
  have "- 2147483648 \<le> real_of_int diff" "real_of_int diff \<le> 2147483647"
    using range by (simp_all add: in_gint32_def)
  with tr have z2b: "\<bar>z2\<bar> < 2147483649" by linarith
  have e2: "\<bar>z2 - w\<bar> \<le> aw / 2 ^ 53 + eps"
    unfolding z2_def eps_def aw_def by (rule to_double_error)
  have "aw \<le> \<bar>z2\<bar> + \<bar>z2 - w\<bar>" unfolding aw_def by linarith
  with e2 z2b have "aw \<le> 2147483649 + aw / 2 ^ 53 + eps" by linarith
  then have "aw * (1 - 1 / 2 ^ 53) \<le> 2147483649 + eps" by (simp add: algebra_simps)
  moreover have "0 \<le> aw" by (simp add: aw_def)
  ultimately have awb: "aw \<le> 4294967296" using eps by simp
  have e1: "\<bar>z1 - P\<bar> \<le> aP / 2 ^ 53 + eps"
    unfolding z1_def eps_def aP_def by (rule to_double_error)
  have "\<bar>z1\<bar> \<le> aw + real_of_int t" unfolding aw_def w_def using assms(2) by linarith
  with awb assms(3) have z1b: "\<bar>z1\<bar> \<le> 4295032831" by simp
  have "aP \<le> \<bar>z1\<bar> + \<bar>z1 - P\<bar>" unfolding aP_def by linarith
  with e1 z1b have "aP \<le> 4295032831 + aP / 2 ^ 53 + eps" by linarith
  then have "aP * (1 - 1 / 2 ^ 53) \<le> 4295032831 + eps" by (simp add: algebra_simps)
  moreover have "0 \<le> aP" by (simp add: aP_def)
  ultimately have aPb: "aP \<le> 8589934592" using eps by simp
  have "aP / 2 ^ 53 \<le> 8589934592 / 2 ^ 53" using aPb by (intro divide_right_mono) simp_all
  then have s1: "\<bar>z1 - P\<bar> \<le> 1 / 1000000 + eps" using e1 by simp
  have "aw / 2 ^ 53 \<le> 4294967296 / 2 ^ 53" using awb by (intro divide_right_mono) simp_all
  then have s2: "\<bar>z2 - w\<bar> \<le> 1 / 1000000 + eps" using e2 by simp
  have "real_of_int diff - (P - real_of_int t) = (real_of_int diff - z2) + (z2 - w) + (z1 - P)"
    by (simp add: w_def)
  then have "\<bar>real_of_int diff - (P - real_of_int t)\<bar> \<le>
      \<bar>real_of_int diff - z2\<bar> + \<bar>z2 - w\<bar> + \<bar>z1 - P\<bar>"
    by linarith
  with tr s1 s2 eps show "\<bar>real_of_int diff - (P - real_of_int t)\<bar> < 1 + 1 / 100000"
    by linarith
  show "diff = k - t" if "to_double P = real_of_int k"
  proof -
    have w: "w = real_of_int (k - t)" using that by (simp add: w_def z1_def)
    then have "\<bar>real_of_int (k - t)\<bar> \<le> 4294967296" using awb by (simp add: aw_def)
    then have "\<bar>real_of_int (k - t)\<bar> < real_of_int (2 ^ 53)" by simp
    then have "\<bar>k - t\<bar> < 2 ^ 53" by (simp only: of_int_abs [symmetric] of_int_less_iff)
    then have "z2 = real_of_int (k - t)" unfolding z2_def w by (rule to_double_of_int)
    with assms(1) show ?thesis
      by (simp only: z2_def [symmetric] w_def [symmetric] z1_def [symmetric]
          double_to_gint32_of_int)
  qed
qed

text \<open>
  Claim C9. \<open>g_usleep (target)\<close> returns after at least \<open>target\<close> microseconds, and
  the timer was started before it: its reading is not below the target. With a reading
  that is not more than 55 milliseconds short of the target (\<open>target\<close> being the
  \<open>guint16\<close> it is), one iteration computes \<open>diff\<close> as the elapsed microseconds minus
  the target, in double arithmetic and converted to \<open>gint32\<close>: the difference in whole
  microseconds, less than a microsecond and the rounding away from the exact one, and
  \<open>k - target\<close> when the product is the whole number \<open>k\<close>. Then
  \<open>remaining = 10000 - diff\<close> plus the previous \<open>remaining\<close> if that was negative, and
  the next target is \<open>max 0 remaining\<close>, which fits the \<open>guint16\<close>: the condition
  on the target, true of the first target 10000, holds again for the next one. With a
  reading of at most 1000 seconds and a debt of at most 1000 seconds, nothing overflows.
\<close>

theorem sleep_accounting_next_target:
  assumes "0 \<le> target l" "target l \<le> 65535"
    and "real_of_int (target l) - 55000 \<le> 1000000 * elapsed"
  shows "(sleep_accounting l elapsed = Some l' \<longrightarrow>
           (\<exists>diff.
              double_to_gint32
                (to_double (to_double (1000000 * elapsed) - real_of_int (target l))) =
                Some diff \<and>
              \<bar>real_of_int diff - (1000000 * elapsed - real_of_int (target l))\<bar> <
                1 + 1 / 100000 \<and>
              (\<forall>k. to_double (1000000 * elapsed) = real_of_int k \<longrightarrow> diff = k - target l) \<and>
              remaining l' = 10000 - diff + (if remaining l < 0 then remaining l else 0)) \<and>
           target l' = max 0 (remaining l') \<and> 0 \<le> target l' \<and> target l' \<le> 65535) \<and>
         (elapsed \<le> 1000 \<and> - 1000000000 \<le> remaining l \<longrightarrow>
            (\<exists>l'. sleep_accounting l elapsed = Some l'))"
proof (intro conjI impI)
  assume "elapsed \<le> 1000 \<and> - 1000000000 \<le> remaining l"
  with assms show "\<exists>l'. sleep_accounting l elapsed = Some l'"
    by (intro sleep_accounting_defined) simp_all
next
  assume some: "sleep_accounting l elapsed = Some l'"
  let ?x = "to_double (to_double (1000000 * elapsed) - real_of_int (target l))"
  from some obtain diff where
    d: "double_to_gint32 ?x = Some diff" and
    r: "remaining l' = 10000 - diff + (if remaining l < 0 then remaining l else 0)" and
    t: "target l' = to_guint16 (if remaining l' < 0 then 0 else remaining l')"
    by (rule sleep_accounting_Some)
  have acc: "\<bar>real_of_int diff - (1000000 * elapsed - real_of_int (target l))\<bar> < 1 + 1 / 100000"
    using d assms(1,2) by (rule sleep_accounting_rounded_difference(1))
  have whole: "\<forall>k. to_double (1000000 * elapsed) = real_of_int k \<longrightarrow> diff = k - target l"
    using sleep_accounting_rounded_difference(2) [OF d assms(1,2)] by blast
  show "\<exists>diff. double_to_gint32 ?x = Some diff \<and>
      \<bar>real_of_int diff - (1000000 * elapsed - real_of_int (target l))\<bar> < 1 + 1 / 100000 \<and>
      (\<forall>k. to_double (1000000 * elapsed) = real_of_int k \<longrightarrow> diff = k - target l) \<and>
      remaining l' = 10000 - diff + (if remaining l < 0 then remaining l else 0)"
    using d acc whole r by blast
  have lo: "real_of_int (target l - 55000) \<le> 1000000 * elapsed" using assms(3) by simp
  have "real_of_int (target l - 55000 - target l) \<le> ?x"
    using assms(1,2) by (intro rounded_difference_ge [OF _ _ lo]) simp_all
  then have "real_of_int (- 55000) \<le> ?x" by simp
  then have "- 55000 \<le> (if 0 \<le> ?x then \<lfloor>?x\<rfloor> else \<lceil>?x\<rceil>)" by (rule truncation_ge)
  then have "- 55000 \<le> diff" using double_to_gint32_Some [OF d] by simp
  then have "remaining l' \<le> 65000" using r by simp
  then show "target l' = max 0 (remaining l')" "0 \<le> target l'" "target l' \<le> 65535"
    using t by (simp_all add: to_guint16_def)
qed

theorem sleep_accounting_next_target_witness:
  "sleep_accounting \<lparr>vol_reduction_amount = 2, target = 10000, remaining = 0\<rparr>
       (to_double (21 / 2000)) =
     Some \<lparr>vol_reduction_amount = 2, target = 9500, remaining = 9500\<rparr> \<and>
   sleep_accounting \<lparr>vol_reduction_amount = 2, target = 0, remaining = - 300\<rparr>
       (to_double (1 / 5000)) =
     Some \<lparr>vol_reduction_amount = 2, target = 9500, remaining = 9500\<rparr> \<and>
   target \<lparr>vol_reduction_amount = 2, target = 9500, remaining = 9500\<rparr> =
     max 0 (remaining \<lparr>vol_reduction_amount = 2, target = 9500, remaining = 9500\<rparr>)"
proof -
  let ?l = "\<lparr>vol_reduction_amount = 2, target = 10000, remaining = 0\<rparr>"
  let ?m = "\<lparr>vol_reduction_amount = 2, target = 0, remaining = - 300\<rparr>"
  let ?r = "\<lparr>vol_reduction_amount = 2, target = 9500, remaining = 9500\<rparr>"
  have a: "sleep_accounting ?l (to_double (21 / 2000)) = Some ?r"
    by (simp add: sleep_accounting_def to_double_10500 to_double_numeral double_to_gint32_def
        gint32_arith_def in_gint32_def to_guint16_def)
  have b: "sleep_accounting ?m (to_double (1 / 5000)) = Some ?r"
    by (simp add: sleep_accounting_def to_double_200 to_double_numeral double_to_gint32_def
        gint32_arith_def in_gint32_def to_guint16_def)
  have "(0::real) \<le> 21 / 2000" by simp
  then have "0 \<le> 1000000 * to_double (21 / 2000)" by (rule rounded_reading_nonneg)
  then have h: "real_of_int (target ?l) - 55000 \<le> 1000000 * to_double (21 / 2000)" by simp
  have g: "0 \<le> target ?l" "target ?l \<le> 65535" by simp_all
  from sleep_accounting_next_target [OF g h, of ?r] a have "target ?r = max 0 (remaining ?r)"
    by blast
  with a b show ?thesis by blast
qed

text \<open>
  What the condition on the reading is for: \<open>target\<close> is a \<open>guint16\<close> and \<open>remaining\<close>
  a \<open>gint32\<close>, so a \<open>remaining\<close> above 65535 would be stored modulo \<open>2 ^ 16\<close>. It takes
  readings of the timer far below the time slept to get there: six readings of 0 seconds
  in a row raise \<open>remaining\<close> to 70000.
\<close>

lemma sleep_accounting_narrowing_example:
  "sleep_accounting \<lparr>vol_reduction_amount = 2, target = 10000, remaining = 0\<rparr> 0 =
     Some \<lparr>vol_reduction_amount = 2, target = 20000, remaining = 20000\<rparr> \<and>
   sleep_accounting \<lparr>vol_reduction_amount = 2, target = 20000, remaining = 20000\<rparr> 0 =
     Some \<lparr>vol_reduction_amount = 2, target = 30000, remaining = 30000\<rparr> \<and>
   sleep_accounting \<lparr>vol_reduction_amount = 2, target = 30000, remaining = 30000\<rparr> 0 =
     Some \<lparr>vol_reduction_amount = 2, target = 40000, remaining = 40000\<rparr> \<and>
   sleep_accounting \<lparr>vol_reduction_amount = 2, target = 40000, remaining = 40000\<rparr> 0 =
     Some \<lparr>vol_reduction_amount = 2, target = 50000, remaining = 50000\<rparr> \<and>
   sleep_accounting \<lparr>vol_reduction_amount = 2, target = 50000, remaining = 50000\<rparr> 0 =
     Some \<lparr>vol_reduction_amount = 2, target = 60000, remaining = 60000\<rparr> \<and>
   sleep_accounting \<lparr>vol_reduction_amount = 2, target = 60000, remaining = 60000\<rparr> 0 =
     Some \<lparr>vol_reduction_amount = 2, target = 4464, remaining = 70000\<rparr>"
  by (simp add: sleep_accounting_def to_double_neg_numeral double_to_gint32_def
      gint32_arith_def in_gint32_def to_guint16_def)

subsection \<open>The loop of the fading thread\<close>

lemma fading_loop_append:
  "fading_loop l s (obs @ obs') =
     (case fading_loop l s obs of
        (Sleeping, l1, s1) \<Rightarrow> fading_loop l1 s1 obs'
      | r \<Rightarrow> r)"
proof (induction obs arbitrary: l s)
  case Nil
  show ?case by (cases obs') (auto split: prod.splits)
next
  case (Cons ob obs)
  obtain e evs where ob: "ob = (e, evs)" by (cases ob)
  show ?case
    by (simp add: ob Cons.IH Let_def split: option.splits thread_status.splits)
qed

lemma fading_loop_amount:
  "fading_loop l s obs = (st, l', s') \<Longrightarrow> vol_reduction_amount l' = vol_reduction_amount l"
proof (induction obs arbitrary: l s)
  case Nil
  then show ?case by (auto split: if_splits)
next
  case (Cons ob obs)
  obtain e evs where ob: "ob = (e, evs)" by (cases ob)
  from Cons.prems show ?case
    by (auto simp: ob Let_def sleep_accounting_amount
        split: if_splits option.splits dest!: Cons.IH)
qed

lemma fading_loop_ge_1:
  assumes "1 < vol_reduction_amount l" "1 \<le> vol_reduction s"
    and "fading_loop l s obs = (st, l', s')"
  shows "1 \<le> vol_reduction s'"
  using assms
proof (induction obs arbitrary: l s)
  case Nil
  then show ?case by (auto simp: after_loop_def split: if_splits)
next
  case (Cons ob obs)
  obtain e evs where ob: "ob = (e, evs)" by (cases ob)
  show ?case
  proof (cases "vol_reduction s < 200")
    case False
    with Cons.prems show ?thesis by (auto simp: ob after_loop_def)
  next
    case True
    note lt = this
    let ?s1 = "host_events evs s"
    have s1: "1 \<le> vol_reduction ?s1" using Cons.prems(2) by (rule host_events_ge_1)
    show ?thesis
    proof (cases "sleep_accounting l e")
      case None
      with Cons.prems lt s1 show ?thesis by (auto simp: ob)
    next
      case (Some l1)
      have a1: "1 < vol_reduction_amount l1"
        using Some Cons.prems(1) by (simp add: sleep_accounting_amount)
      show ?thesis
      proof (cases "vol_reduction ?s1 = 1")
        case True
        with Cons.prems lt Some show ?thesis by (auto simp: ob)
      next
        case False
        let ?s2 = "?s1\<lparr>vol_reduction := vol_reduction ?s1 * vol_reduction_amount l1\<rparr>"
        have "1 * 1 \<le> vol_reduction ?s1 * vol_reduction_amount l1"
          using s1 a1 by (intro mult_mono) simp_all
        then have "1 \<le> vol_reduction ?s2" by simp
        moreover have "fading_loop l1 ?s2 obs = (st, l', s')"
          using Cons.prems(3) lt Some False by (simp add: ob Let_def)
        ultimately show ?thesis using a1 by (rule Cons.IH [rotated])
      qed
    qed
  qed
qed

lemma fading_loop_Cons_Sleeping:
  assumes "fading_loop l s ((e, evs) # obs) = (Sleeping, l', s')"
  obtains l1 where "vol_reduction s < 200" "sleep_accounting l e = Some l1"
    "vol_reduction (host_events evs s) = vol_reduction s"
    "vol_reduction (host_events evs s) \<noteq> 1"
    "fading_loop l1
       ((host_events evs s)\<lparr>vol_reduction := vol_reduction s * vol_reduction_amount l1\<rparr>) obs
         = (Sleeping, l', s')"
proof -
  have lt: "vol_reduction s < 200"
    using assms by (simp split: if_splits)
  obtain l1 where acc: "sleep_accounting l e = Some l1"
    using assms lt by (cases "sleep_accounting l e") (simp_all add: Let_def)
  have ne: "vol_reduction (host_events evs s) \<noteq> 1"
    using assms lt acc by (simp add: Let_def split: if_splits)
  have eq: "vol_reduction (host_events evs s) = vol_reduction s"
    using host_events_vol [of evs s] ne by blast
  have "fading_loop l1
       ((host_events evs s)\<lparr>vol_reduction := vol_reduction s * vol_reduction_amount l1\<rparr>) obs
         = (Sleeping, l', s')"
    using assms lt acc ne eq by (simp add: Let_def)
  with lt acc eq ne show thesis by (rule that)
qed

lemma fading_loop_sleeping_lt:
  "fading_loop l s obs = (Sleeping, l', s') \<Longrightarrow> vol_reduction s' < MAX_VOL_REDUCTION"
proof (induction obs arbitrary: l s)
  case Nil
  then show ?case by (simp split: if_splits)
next
  case (Cons ob obs)
  obtain e evs where ob: "ob = (e, evs)" by (cases ob)
  from Cons.prems [unfolded ob] show ?case
    by (rule fading_loop_Cons_Sleeping) (rule Cons.IH)
qed

lemma fading_loop_sleeping_gt_1:
  assumes "1 < vol_reduction_amount l" "1 < vol_reduction s"
    and "fading_loop l s obs = (Sleeping, l', s')"
  shows "1 < vol_reduction s'"
  using assms
proof (induction obs arbitrary: l s)
  case Nil
  then show ?case by (simp split: if_splits)
next
  case (Cons ob obs)
  obtain e evs where ob: "ob = (e, evs)" by (cases ob)
  from Cons.prems(3) [unfolded ob] show ?case
  proof (rule fading_loop_Cons_Sleeping)
    fix l1 :: fading_locals
    let ?s2 = "(host_events evs s)\<lparr>vol_reduction := vol_reduction s * vol_reduction_amount l1\<rparr>"
    assume acc: "sleep_accounting l e = Some l1"
      and rest: "fading_loop l1 ?s2 obs = (Sleeping, l', s')"
    have a1: "1 < vol_reduction_amount l1"
      using acc Cons.prems(1) by (simp add: sleep_accounting_amount)
    have "1 * 1 < vol_reduction s * vol_reduction_amount l1"
      using Cons.prems(2) a1 by (intro mult_strict_mono) simp_all
    then have "1 < vol_reduction ?s2" by simp
    with a1 show ?thesis using rest by (rule Cons.IH)
  qed
qed

lemma fading_loop_sleeping_mono:
  assumes "1 < vol_reduction_amount l" "1 \<le> vol_reduction s"
    and "fading_loop l s obs = (Sleeping, l', s')"
  shows "vol_reduction s \<le> vol_reduction s' \<and> (obs \<noteq> [] \<longrightarrow> vol_reduction s < vol_reduction s')"
  using assms
proof (induction obs arbitrary: l s)
  case Nil
  then show ?case by (simp split: if_splits)
next
  case (Cons ob obs)
  obtain e evs where ob: "ob = (e, evs)" by (cases ob)
  from Cons.prems(3) [unfolded ob] show ?case
  proof (rule fading_loop_Cons_Sleeping)
    fix l1 :: fading_locals
    let ?s2 = "(host_events evs s)\<lparr>vol_reduction := vol_reduction s * vol_reduction_amount l1\<rparr>"
    assume acc: "sleep_accounting l e = Some l1"
      and rest: "fading_loop l1 ?s2 obs = (Sleeping, l', s')"
    have a1: "1 < vol_reduction_amount l1"
      using acc Cons.prems(1) by (simp add: sleep_accounting_amount)
    have "vol_reduction s * 1 < vol_reduction s * vol_reduction_amount l1"
      using Cons.prems(2) a1 by (intro mult_strict_left_mono) simp_all
    then have step: "vol_reduction s < vol_reduction ?s2" by simp
    have "1 \<le> vol_reduction ?s2" using step Cons.prems(2) by linarith
    with a1 have "vol_reduction ?s2 \<le> vol_reduction s'"
      using rest by (blast dest: Cons.IH)
    with step show ?thesis by simp
  qed
qed

lemma fading_loop_poll_exit:
  assumes "vol_reduction s < MAX_VOL_REDUCTION" "sleep_accounting l elapsed = Some l1"
    and "vol_reduction (host_events evs s) = 1"
  shows "fading_loop l s ((elapsed, evs) # obs) = (Exited, l1, host_events evs s)"
  using assms by (simp add: Let_def)

lemma fading_loop_Returned:
  "fading_loop l s obs = (Returned, l', s') \<Longrightarrow>
     \<exists>s0. MAX_VOL_REDUCTION \<le> vol_reduction s0 \<and> s' = after_loop s0"
proof (induction obs arbitrary: l s)
  case Nil
  then have "MAX_VOL_REDUCTION \<le> vol_reduction s \<and> s' = after_loop s"
    by (simp split: if_splits)
  then show ?case by blast
next
  case (Cons ob obs)
  obtain e evs where ob: "ob = (e, evs)" by (cases ob)
  show ?case
  proof (cases "vol_reduction s < MAX_VOL_REDUCTION")
    case False
    with Cons.prems have "MAX_VOL_REDUCTION \<le> vol_reduction s \<and> s' = after_loop s"
      by (simp add: ob)
    then show ?thesis by blast
  next
    case True
    show ?thesis
    proof (cases "sleep_accounting l e")
      case None
      with Cons.prems True show ?thesis by (simp add: ob Let_def)
    next
      case (Some l1)
      show ?thesis
      proof (cases "vol_reduction (host_events evs s) = 1")
        case one: True
        with Cons.prems True Some show ?thesis by (simp add: ob Let_def)
      next
        case False
        with Cons.prems True Some have
          "fading_loop l1 ((host_events evs s)\<lparr>vol_reduction :=
              vol_reduction (host_events evs s) * vol_reduction_amount l1\<rparr>) obs = (Returned, l', s')"
          by (simp add: ob Let_def)
        then show ?thesis by (rule Cons.IH)
      qed
    qed
  qed
qed

lemma fading_loop_alone:
  assumes "\<forall>ob \<in> set obs. snd ob = []" "fading_loop l s obs = (st, l', s')"
  shows "s' = s\<lparr>vol_reduction := vol_reduction s',
                 idle_sources := idle_sources s + (if st = Returned then 1 else 0)\<rparr>"
  using assms
proof (induction obs arbitrary: l s)
  case Nil
  then show ?case
    by (auto simp: after_loop_def stop_playback_and_fading_def split: if_splits)
next
  case (Cons ob obs)
  obtain e evs where ob: "ob = (e, evs)" by (cases ob)
  have evs: "evs = []" using Cons.prems(1) by (simp add: ob)
  have rest: "\<forall>ob \<in> set obs. snd ob = []" using Cons.prems(1) by simp
  show ?case
  proof (cases "vol_reduction s < MAX_VOL_REDUCTION")
    case False
    with Cons.prems(2) show ?thesis
      by (auto simp: ob after_loop_def stop_playback_and_fading_def)
  next
    case True
    show ?thesis
    proof (cases "sleep_accounting l e")
      case None
      with Cons.prems(2) True show ?thesis by (auto simp: ob evs)
    next
      case (Some l1)
      show ?thesis
      proof (cases "vol_reduction s = 1")
        case one: True
        with Cons.prems(2) True Some show ?thesis by (auto simp: ob evs)
      next
        case False
        let ?s2 = "s\<lparr>vol_reduction := vol_reduction s * vol_reduction_amount l1\<rparr>"
        from Cons.prems(2) True Some False have "fading_loop l1 ?s2 obs = (st, l', s')"
          by (simp add: ob evs)
        with rest have "s' = ?s2\<lparr>vol_reduction := vol_reduction s',
            idle_sources := idle_sources ?s2 + (if st = Returned then 1 else 0)\<rparr>"
          by (rule Cons.IH)
        then show ?thesis by simp
      qed
    qed
  qed
qed

lemma fading_loop_Exited:
  "fading_loop l s obs = (Exited, l', s') \<Longrightarrow>
     \<exists>obs1 e evs obs2 l1 s1.
        obs = obs1 @ (e, evs) # obs2 \<and> fading_loop l s obs1 = (Sleeping, l1, s1) \<and>
        sleep_accounting l1 e = Some l' \<and> s' = host_events evs s1 \<and> vol_reduction s' = 1"
proof (induction obs arbitrary: l s)
  case Nil
  then show ?case by (simp split: if_splits)
next
  case (Cons ob obs)
  obtain e evs where ob: "ob = (e, evs)" by (cases ob)
  have lt: "vol_reduction s < MAX_VOL_REDUCTION"
    using Cons.prems by (simp add: ob split: if_splits)
  obtain l1 where acc: "sleep_accounting l e = Some l1"
    using Cons.prems lt by (cases "sleep_accounting l e") (simp_all add: ob Let_def)
  show ?case
  proof (cases "vol_reduction (host_events evs s) = 1")
    case True
    with Cons.prems lt acc have "l' = l1" "s' = host_events evs s"
      by (simp_all add: ob Let_def)
    moreover have "fading_loop l s [] = (Sleeping, l, s)" using lt by simp
    ultimately have "ob # obs = [] @ (e, evs) # obs \<and> fading_loop l s [] = (Sleeping, l, s) \<and>
        sleep_accounting l e = Some l' \<and> s' = host_events evs s \<and> vol_reduction s' = 1"
      using acc True by (simp add: ob)
    then show ?thesis by blast
  next
    case False
    let ?s2 = "(host_events evs s)\<lparr>vol_reduction :=
        vol_reduction (host_events evs s) * vol_reduction_amount l1\<rparr>"
    from Cons.prems lt acc False have "fading_loop l1 ?s2 obs = (Exited, l', s')"
      by (simp add: ob Let_def)
    then obtain obs1 e' evs' obs2 l2 s2 where
      o: "obs = obs1 @ (e', evs') # obs2" and
      r: "fading_loop l1 ?s2 obs1 = (Sleeping, l2, s2)" and
      a: "sleep_accounting l2 e' = Some l'" and
      s: "s' = host_events evs' s2" "vol_reduction s' = 1"
      using Cons.IH by blast
    have "fading_loop l s ((e, evs) # obs1) = (Sleeping, l2, s2)"
      using lt acc False r by (simp add: Let_def)
    moreover have "ob # obs = ((e, evs) # obs1) @ (e', evs') # obs2"
      using o by (simp add: ob)
    ultimately show ?thesis using a s by blast
  qed
qed

text \<open>
  A run in which every sleep takes exactly its 10000 microseconds and no other thread
  touches the state: the gain after \<open>k\<close> sleeps is the gain at the first sleep times the
  \<open>k\<close>-th power of the step factor, as long as that stays below the threshold.
\<close>

lemma fading_loop_on_time:
  assumes "target l = 10000" "0 \<le> remaining l" "1 < vol_reduction_amount l"
    and "1 < vol_reduction s"
    and "vol_reduction s * vol_reduction_amount l ^ k < MAX_VOL_REDUCTION"
  shows "\<exists>l'. fading_loop l s (replicate k (ten_milliseconds, [])) =
           (Sleeping, l', s\<lparr>vol_reduction := vol_reduction s * vol_reduction_amount l ^ k\<rparr>) \<and>
           target l' = 10000 \<and> 0 \<le> remaining l' \<and>
           vol_reduction_amount l' = vol_reduction_amount l"
  using assms
proof (induction k arbitrary: l s)
  case 0
  then show ?case by simp
next
  case (Suc k)
  let ?a = "vol_reduction_amount l"
  let ?l1 = "l\<lparr>remaining := 10000, target := 10000\<rparr>"
  let ?s2 = "s\<lparr>vol_reduction := vol_reduction s * ?a\<rparr>"
  have acc: "sleep_accounting l ten_milliseconds = Some ?l1"
    using Suc.prems(1,2) by (rule sleep_accounting_on_time_general)
  have pos: "0 < vol_reduction s" using Suc.prems(4) by simp
  have "1 \<le> ?a ^ Suc k" using Suc.prems(3) by (intro one_le_power) simp
  then have "vol_reduction s * 1 \<le> vol_reduction s * ?a ^ Suc k"
    using pos by (intro mult_left_mono) simp_all
  then have lt: "vol_reduction s < MAX_VOL_REDUCTION" using Suc.prems(5) by simp
  have ne: "vol_reduction s \<noteq> 1" using Suc.prems(4) by simp
  have step: "fading_loop l s (replicate (Suc k) (ten_milliseconds, [])) =
      fading_loop ?l1 ?s2 (replicate k (ten_milliseconds, []))"
    using lt ne acc by simp
  have "1 * 1 < vol_reduction s * ?a"
    using Suc.prems(3,4) by (intro mult_strict_mono) simp_all
  then have g: "1 < vol_reduction ?s2" by simp
  have b: "vol_reduction ?s2 * vol_reduction_amount ?l1 ^ k < MAX_VOL_REDUCTION"
    using Suc.prems(5) by (simp add: mult.assoc)
  have "\<exists>l'. fading_loop ?l1 ?s2 (replicate k (ten_milliseconds, [])) =
           (Sleeping, l', ?s2\<lparr>vol_reduction := vol_reduction ?s2 * vol_reduction_amount ?l1 ^ k\<rparr>) \<and>
           target l' = 10000 \<and> 0 \<le> remaining l' \<and>
           vol_reduction_amount l' = vol_reduction_amount ?l1"
    using Suc.prems(3) g b by (intro Suc.IH) simp_all
  then obtain l' where
    r: "fading_loop ?l1 ?s2 (replicate k (ten_milliseconds, [])) =
           (Sleeping, l', ?s2\<lparr>vol_reduction := vol_reduction ?s2 * vol_reduction_amount ?l1 ^ k\<rparr>)"
    and l': "target l' = 10000" "0 \<le> remaining l'"
      "vol_reduction_amount l' = vol_reduction_amount ?l1"
    by blast
  have e: "?s2\<lparr>vol_reduction := vol_reduction ?s2 * vol_reduction_amount ?l1 ^ k\<rparr> =
      s\<lparr>vol_reduction := vol_reduction s * ?a ^ Suc k\<rparr>"
    by (simp add: mult.assoc)
  have "fading_loop l s (replicate (Suc k) (ten_milliseconds, [])) =
      (Sleeping, l', s\<lparr>vol_reduction := vol_reduction s * ?a ^ Suc k\<rparr>)"
    by (simp only: step r e)
  moreover have "vol_reduction_amount l' = ?a" using l'(3) by simp
  ultimately show ?case using l'(1,2) by blast
qed

subsection \<open>Runs of the fading thread\<close>

lemma fading_thread_append:
  "fading_thread d s (obs @ obs') =
     (case fading_thread d s obs of
        (Sleeping, l1, s1) \<Rightarrow> fading_loop l1 s1 obs'
      | r \<Rightarrow> r)"
  by (simp add: fading_thread_def Let_def fading_loop_append)

lemma fading_thread_sleeping_lt:
  "fading_thread d s obs = (Sleeping, l, s') \<Longrightarrow> vol_reduction s' < MAX_VOL_REDUCTION"
  unfolding fading_thread_def Let_def by (rule fading_loop_sleeping_lt)

lemma fading_thread_sleeping_gt_1:
  assumes "1 \<le> d" "d \<le> 10" "1 \<le> vol_reduction s"
    and "fading_thread d s obs = (Sleeping, l, s')"
  shows "1 < vol_reduction s'"
proof -
  let ?a = "calculate_vol_reduction_amount d"
  let ?l = "\<lparr>vol_reduction_amount = ?a, target = 10000, remaining = 0\<rparr>"
  let ?s = "s\<lparr>vol_reduction := vol_reduction s * ?a\<rparr>"
  have a: "1 < ?a" using assms(1,2) by (rule amount_gt_1)
  have "1 * 1 < vol_reduction s * ?a"
    using assms(3) a by (intro mult_le_less_imp_less) simp_all
  then have v: "1 < vol_reduction ?s" by simp
  have al: "1 < vol_reduction_amount ?l" using a by simp
  have run: "fading_loop ?l ?s obs = (Sleeping, l, s')"
    using assms(4) by (simp add: fading_thread_def Let_def)
  from al v run show ?thesis by (rule fading_loop_sleeping_gt_1)
qed

lemma fading_thread_ge_1:
  assumes "1 \<le> d" "d \<le> 10" "1 \<le> vol_reduction s"
    and "fading_thread d s obs = (st, l, s')"
  shows "1 \<le> vol_reduction s'"
proof -
  let ?a = "calculate_vol_reduction_amount d"
  let ?l = "\<lparr>vol_reduction_amount = ?a, target = 10000, remaining = 0\<rparr>"
  let ?s = "s\<lparr>vol_reduction := vol_reduction s * ?a\<rparr>"
  have a: "1 < ?a" using assms(1,2) by (rule amount_gt_1)
  have "1 * 1 \<le> vol_reduction s * ?a"
    using assms(3) a by (intro mult_mono) simp_all
  then have v: "1 \<le> vol_reduction ?s" by simp
  have al: "1 < vol_reduction_amount ?l" using a by simp
  have run: "fading_loop ?l ?s obs = (st, l, s')"
    using assms(4) by (simp add: fading_thread_def Let_def)
  from al v run show ?thesis by (rule fading_loop_ge_1)
qed

lemma fading_thread_prefix_mono:
  assumes "1 \<le> d" "d \<le> 10" "1 \<le> vol_reduction s"
    and "fading_thread d s (obs @ obs') = (Sleeping, l2, s2)"
  shows "\<exists>l1 s1. fading_thread d s obs = (Sleeping, l1, s1) \<and>
           vol_reduction s < vol_reduction s1 \<and>
           vol_reduction s1 \<le> vol_reduction s2 \<and>
           (obs' \<noteq> [] \<longrightarrow> vol_reduction s1 < vol_reduction s2)"
proof -
  obtain st l1 s1 where r: "fading_thread d s obs = (st, l1, s1)"
    by (cases "fading_thread d s obs") blast
  have st: "st = Sleeping"
    using assms(4) r by (cases st) (simp_all add: fading_thread_append)
  have rest: "fading_loop l1 s1 obs' = (Sleeping, l2, s2)"
    using assms(4) r st by (simp add: fading_thread_append)
  have g: "1 < vol_reduction s1"
    using assms(1-3) r [unfolded st] by (rule fading_thread_sleeping_gt_1)
  have "vol_reduction_amount l1 = calculate_vol_reduction_amount d"
    using r by (simp add: fading_thread_def Let_def fading_loop_amount)
  then have a: "1 < vol_reduction_amount l1"
    using amount_gt_1 [OF assms(1,2)] by simp
  have s1: "1 \<le> vol_reduction s1" using g by simp
  let ?a = "calculate_vol_reduction_amount d"
  let ?l = "\<lparr>vol_reduction_amount = ?a, target = 10000, remaining = 0\<rparr>"
  let ?s = "s\<lparr>vol_reduction := vol_reduction s * ?a\<rparr>"
  have "vol_reduction s * 1 < vol_reduction s * ?a"
    using assms(3) amount_gt_1 [OF assms(1,2)] by (intro mult_strict_left_mono) simp_all
  then have first: "vol_reduction s < vol_reduction ?s" by simp
  have "fading_loop ?l ?s obs = (Sleeping, l1, s1)"
    using r st by (simp add: fading_thread_def Let_def)
  moreover have "1 < vol_reduction_amount ?l" using amount_gt_1 [OF assms(1,2)] by simp
  moreover have "1 \<le> vol_reduction ?s" using first assms(3) by linarith
  ultimately have "vol_reduction ?s \<le> vol_reduction s1"
    by (blast dest: fading_loop_sleeping_mono)
  with first have lt: "vol_reduction s < vol_reduction s1" by simp
  from fading_loop_sleeping_mono [OF a s1 rest] lt r st show ?thesis by blast
qed

lemma fading_thread_poll_exit:
  assumes "fading_thread d s0 obs0 = (Sleeping, l, s)" "sleep_accounting l elapsed = Some l1"
    and "vol_reduction (host_events evs s) = 1"
  shows "fading_thread d s0 (obs0 @ (elapsed, evs) # obs) = (Exited, l1, host_events evs s)"
proof -
  have "vol_reduction s < MAX_VOL_REDUCTION"
    using assms(1) by (rule fading_thread_sleeping_lt)
  then have "fading_loop l s ((elapsed, evs) # obs) = (Exited, l1, host_events evs s)"
    using assms(2,3) by (rule fading_loop_poll_exit)
  then show ?thesis
    by (simp add: fading_thread_append assms(1))
qed

lemma fading_thread_first_sleep:
  assumes "1 \<le> d" "vol_reduction s = 1"
  shows "fading_thread d s [] =
    (Sleeping,
     \<lparr>vol_reduction_amount = calculate_vol_reduction_amount d, target = 10000, remaining = 0\<rparr>,
     s\<lparr>vol_reduction := calculate_vol_reduction_amount d\<rparr>)"
  using amount_lt_max [OF assms(1)] assms(2) by (simp add: fading_thread_def)

lemma fading_thread_second_sleep:
  assumes "1 \<le> d" "d \<le> 10" "vol_reduction s = 1"
  shows "fading_thread d s [(ten_milliseconds, [])] =
    (Sleeping,
     \<lparr>vol_reduction_amount = calculate_vol_reduction_amount d, target = 10000, remaining = 10000\<rparr>,
     s\<lparr>vol_reduction := calculate_vol_reduction_amount d * calculate_vol_reduction_amount d\<rparr>)"
proof -
  let ?a = "calculate_vol_reduction_amount d"
  let ?l = "\<lparr>vol_reduction_amount = ?a, target = 10000, remaining = 0\<rparr>"
  have first: "fading_thread d s [] = (Sleeping, ?l, s\<lparr>vol_reduction := ?a\<rparr>)"
    using assms(1,3) by (rule fading_thread_first_sleep)
  have a1: "?a \<noteq> 1" using amount_gt_1 [OF assms(1,2)] by simp
  have "?a ^ 2 < MAX_VOL_REDUCTION"
    using assms(1) by (intro amount_power_lt_max) simp_all
  then have a2: "?a * ?a < MAX_VOL_REDUCTION" by (simp add: power2_eq_square)
  have "fading_thread d s ([] @ [(ten_milliseconds, [])]) =
      fading_loop ?l (s\<lparr>vol_reduction := ?a\<rparr>) [(ten_milliseconds, [])]"
    by (simp only: fading_thread_append first prod.case thread_status.case)
  also have "\<dots> = (Sleeping, \<lparr>vol_reduction_amount = ?a, target = 10000, remaining = 10000\<rparr>,
      s\<lparr>vol_reduction := ?a * ?a\<rparr>)"
    using amount_lt_max [OF assms(1)] a1 a2
    by (simp add: sleep_accounting_on_time)
  finally show ?thesis by simp
qed

lemma fading_thread_on_time:
  assumes "1 \<le> d" "d \<le> 10" "vol_reduction s = 1" "real (Suc k) < 100 * d"
  shows "\<exists>l. fading_thread d s (replicate k (ten_milliseconds, [])) =
           (Sleeping, l, s\<lparr>vol_reduction := calculate_vol_reduction_amount d ^ Suc k\<rparr>) \<and>
           target l = 10000 \<and> 0 \<le> remaining l \<and>
           vol_reduction_amount l = calculate_vol_reduction_amount d"
proof -
  let ?a = "calculate_vol_reduction_amount d"
  let ?l = "\<lparr>vol_reduction_amount = ?a, target = 10000, remaining = 0\<rparr>"
  let ?s = "s\<lparr>vol_reduction := vol_reduction s * ?a\<rparr>"
  have a: "1 < ?a" using assms(1,2) by (rule amount_gt_1)
  have "?a ^ Suc k < MAX_VOL_REDUCTION"
    using assms(1,4) by (intro amount_power_lt_max) simp_all
  then have b: "vol_reduction ?s * vol_reduction_amount ?l ^ k < MAX_VOL_REDUCTION"
    using assms(3) by simp
  have "\<exists>l'. fading_loop ?l ?s (replicate k (ten_milliseconds, [])) =
           (Sleeping, l', ?s\<lparr>vol_reduction := vol_reduction ?s * vol_reduction_amount ?l ^ k\<rparr>) \<and>
           target l' = 10000 \<and> 0 \<le> remaining l' \<and>
           vol_reduction_amount l' = vol_reduction_amount ?l"
    using a assms(3) b by (intro fading_loop_on_time) simp_all
  then show ?thesis
    using assms(3) by (simp add: fading_thread_def Let_def)
qed

lemma fading_thread_returns_on_time:
  assumes "1 \<le> d" "d \<le> 10" "vol_reduction s = 1"
    and "real k < 100 * d" "100 * d \<le> real (Suc k)"
  shows "\<exists>l. fading_thread d s (replicate k (ten_milliseconds, [])) =
           (Returned, l, s\<lparr>idle_sources := idle_sources s + 1, vol_reduction := 1\<rparr>)"
proof -
  let ?a = "calculate_vol_reduction_amount d"
  have "k \<noteq> 0" using assms(1,5) by (cases k) simp_all
  then obtain j where k: "k = Suc j" by (cases k) simp_all
  have j: "real (Suc j) < 100 * d" using assms(4) k by simp
  from fading_thread_on_time [OF assms(1-3) j] obtain l where
    run: "fading_thread d s (replicate j (ten_milliseconds, [])) =
       (Sleeping, l, s\<lparr>vol_reduction := ?a ^ Suc j\<rparr>)" and
    l: "target l = 10000" "0 \<le> remaining l" "vol_reduction_amount l = ?a"
    by blast
  let ?s1 = "s\<lparr>vol_reduction := ?a ^ Suc j\<rparr>"
  have a: "1 < ?a" using assms(1,2) by (rule amount_gt_1)
  have lt: "vol_reduction ?s1 < MAX_VOL_REDUCTION"
    using run by (rule fading_thread_sleeping_lt)
  have "1 < ?a ^ Suc j" using a by (intro one_less_power) simp_all
  then have ne: "vol_reduction ?s1 \<noteq> 1" by simp
  have acc: "sleep_accounting l ten_milliseconds = Some (l\<lparr>remaining := 10000, target := 10000\<rparr>)"
    using l(1,2) by (rule sleep_accounting_on_time_general)
  have "MAX_VOL_REDUCTION \<le> ?a ^ Suc k"
    using assms(1,5) by (intro amount_power_ge_max) simp_all
  then have top: "\<not> ?a ^ Suc j * ?a < MAX_VOL_REDUCTION"
    by (simp add: k mult.commute)
  have "replicate (j + 1) (ten_milliseconds, [] :: host_event list) =
      replicate j (ten_milliseconds, []) @ replicate 1 (ten_milliseconds, [])"
    by (rule replicate_add)
  then have "replicate k (ten_milliseconds, [] :: host_event list) =
      replicate j (ten_milliseconds, []) @ [(ten_milliseconds, [])]"
    by (simp add: k)
  then have "fading_thread d s (replicate k (ten_milliseconds, [])) =
      fading_loop l ?s1 [(ten_milliseconds, [])]"
    by (simp only: fading_thread_append run prod.case thread_status.case)
  also have "\<dots> = (Returned, l\<lparr>remaining := 10000, target := 10000\<rparr>,
      s\<lparr>idle_sources := idle_sources s + 1, vol_reduction := 1\<rparr>)"
    using lt ne acc top l(3)
    by (simp add: after_loop_def stop_playback_and_fading_def del: power_Suc)
  finally show ?thesis by blast
qed

text \<open>
  With the duration 4 and sleeps on time, 398 sleeps leave the thread in its loop and
  the 399th is the last: the 400th multiplication reaches the threshold (in exact
  arithmetic), the stop is queued and the gain is reset.
\<close>

lemma fading_thread_duration_4:
  assumes "vol_reduction s = 1"
  shows "\<exists>l. fading_thread 4 s (replicate 399 (ten_milliseconds, [])) =
           (Returned, l, s\<lparr>idle_sources := idle_sources s + 1, vol_reduction := 1\<rparr>)"
  using fading_thread_returns_on_time [of 4 s 399] assms by simp

subsection \<open>The end of the stream\<close>

lemma concurrent_events_Nil [simp]: "concurrent_events [] s = s"
  by (simp add: concurrent_events_def)

lemma concurrent_events_Cons [simp]:
  "concurrent_events (e # evs) s = concurrent_events evs (apply_concurrent_event e s)"
  by (simp add: concurrent_events_def)

text \<open>
  Claim C5 (amended). \<open>finish\<close> requests the stop first: when fading is active it
  queues exactly one idle source for the main loop and calls \<open>aud_drct_stop\<close> itself
  never; then it clears \<open>is_plugin_processing\<close>; last it processes the buffer and
  returns it. With nothing running in between, the buffer is the input processed with
  the gain at entry. With events of other threads before the last statement, the buffer
  is processed with the gain that they leave. With fading inactive no stop is requested,
  the flag is cleared all the same.
\<close>

theorem finish_stop_request_then_process:
  "finish s data eop =
     ((if vol_reduction s \<noteq> 1 then stop_playback_and_fading s else s)
        \<lparr>is_plugin_processing := False\<rparr>, process s data) \<and>
   idle_sources (fst (finish s data eop)) =
     idle_sources s + (if vol_reduction s \<noteq> 1 then 1 else 0) \<and>
   playback_stops (fst (finish s data eop)) = playback_stops s \<and>
   vol_reduction (fst (finish s data eop)) = vol_reduction s \<and>
   \<not> is_plugin_processing (fst (finish s data eop)) \<and>
   finish_interleaved [] s data eop = finish s data eop \<and>
   finish_interleaved evs s data eop =
     (concurrent_events evs (fst (finish s data eop)),
      process (concurrent_events evs (fst (finish s data eop))) data)"
proof -
  let ?s2 = "(if vol_reduction s \<noteq> 1 then stop_playback_and_fading s else s)
        \<lparr>is_plugin_processing := False\<rparr>"
  have v: "vol_reduction ?s2 = vol_reduction s"
    by (simp add: stop_playback_and_fading_def)
  have f: "finish s data eop = (?s2, process s data)"
    unfolding finish_def Let_def using process_vol_cong [OF v] by simp
  have i: "finish_interleaved evs s data eop =
      (concurrent_events evs ?s2, process (concurrent_events evs ?s2) data)" for evs
    by (simp add: finish_interleaved_def Let_def)
  have p: "process ?s2 data = process s data"
    using v by (rule process_vol_cong)
  have c1: "finish_interleaved [] s data eop = finish s data eop"
    by (simp only: f i concurrent_events_Nil p)
  have c2: "finish_interleaved evs s data eop =
      (concurrent_events evs (fst (finish s data eop)),
       process (concurrent_events evs (fst (finish s data eop))) data)"
    by (simp only: f i fst_conv)
  have c4: "idle_sources (fst (finish s data eop)) =
      idle_sources s + (if vol_reduction s \<noteq> 1 then 1 else 0)"
    by (simp add: f stop_playback_and_fading_def)
  have c5: "playback_stops (fst (finish s data eop)) = playback_stops s"
    by (simp add: f stop_playback_and_fading_def)
  have c6: "vol_reduction (fst (finish s data eop)) = vol_reduction s"
    by (simp add: f stop_playback_and_fading_def)
  have c7: "\<not> is_plugin_processing (fst (finish s data eop))"
    by (simp add: f)
  show ?thesis
    by (intro conjI f c1 c2 c4 c5 c6 c7)
qed

theorem finish_stop_request_then_process_witness:
  "finish (initial_state\<lparr>vol_reduction := 2, is_plugin_processing := True\<rparr>) [1, - 1] False =
     (initial_state\<lparr>vol_reduction := 2, idle_sources := 1\<rparr>, [1 / 2, - (1 / 2)]) \<and>
   finish (initial_state\<lparr>is_plugin_processing := True\<rparr>) [1, - 1] False =
     (initial_state, [1, - 1]) \<and>
   finish_interleaved [Fading (Fading_multiply 2)]
       (initial_state\<lparr>vol_reduction := 2, is_plugin_processing := True\<rparr>) [1] False =
     (initial_state\<lparr>vol_reduction := 4, idle_sources := 1\<rparr>, [1 / 4])"
proof -
  let ?s = "initial_state\<lparr>vol_reduction := 2, is_plugin_processing := True\<rparr>"
  let ?p = "initial_state\<lparr>is_plugin_processing := True\<rparr>"
  have p2: "process ?s [1, - 1] = [1 / 2, - (1 / 2)]"
    by (simp add: process_map sample_half sample_minus_half)
  have p1: "process ?p [1, - 1] = [1, - 1]"
    by (simp add: process_map initial_state_def)
  have "finish ?s [1, - 1] False =
      ((if vol_reduction ?s \<noteq> 1 then stop_playback_and_fading ?s else ?s)
         \<lparr>is_plugin_processing := False\<rparr>, process ?s [1, - 1])"
    using finish_stop_request_then_process [of ?s "[1, - 1]" False "[]"] by blast
  also have "\<dots> = (initial_state\<lparr>vol_reduction := 2, idle_sources := 1\<rparr>, [1 / 2, - (1 / 2)])"
    unfolding p2 by (simp add: initial_state_def stop_playback_and_fading_def)
  finally have a: "finish ?s [1, - 1] False =
      (initial_state\<lparr>vol_reduction := 2, idle_sources := 1\<rparr>, [1 / 2, - (1 / 2)])" .
  have "finish ?p [1, - 1] False =
      ((if vol_reduction ?p \<noteq> 1 then stop_playback_and_fading ?p else ?p)
         \<lparr>is_plugin_processing := False\<rparr>, process ?p [1, - 1])"
    using finish_stop_request_then_process [of ?p "[1, - 1]" False "[]"] by blast
  also have "\<dots> = (initial_state, [1, - 1])"
    unfolding p1 by (simp add: initial_state_def)
  finally have b: "finish ?p [1, - 1] False = (initial_state, [1, - 1])" .
  have "finish ?s [1] False =
      ((if vol_reduction ?s \<noteq> 1 then stop_playback_and_fading ?s else ?s)
         \<lparr>is_plugin_processing := False\<rparr>, process ?s [1])"
    using finish_stop_request_then_process [of ?s "[1]" False "[]"] by blast
  then have s2: "fst (finish ?s [1] False) =
      initial_state\<lparr>vol_reduction := 2, idle_sources := 1\<rparr>"
    by (simp add: initial_state_def stop_playback_and_fading_def)
  have "finish_interleaved [Fading (Fading_multiply 2)] ?s [1] False =
      (concurrent_events [Fading (Fading_multiply 2)] (fst (finish ?s [1] False)),
       process (concurrent_events [Fading (Fading_multiply 2)] (fst (finish ?s [1] False))) [1])"
    using finish_stop_request_then_process [of ?s "[1]" False "[Fading (Fading_multiply 2)]"]
    by blast
  then have c: "finish_interleaved [Fading (Fading_multiply 2)] ?s [1] False =
      (initial_state\<lparr>vol_reduction := 4, idle_sources := 1\<rparr>, [1 / 4])"
    unfolding s2 by (simp add: process_map sample_quarter)
  from a b c show ?thesis by (intro conjI)
qed

text \<open>
  The claim as stated, with the buffer processed before the stop is requested, fails:
  fading is active (gain 2), the main loop dispatches the idle source that \<open>finish\<close>
  has just queued, and the sample 1 is returned as 1, not as 1 / 2.
\<close>

theorem finish_processes_first_counterexample:
  "snd (finish_interleaved [Host Idle_dispatch]
          (initial_state\<lparr>vol_reduction := 2, is_plugin_processing := True\<rparr>) [1] False) = [1] \<and>
   process (initial_state\<lparr>vol_reduction := 2, is_plugin_processing := True\<rparr>) [1] = [1 / 2]"
  by (simp add: finish_interleaved_def initial_state_def stop_playback_and_fading_def
      idle_dispatch_def stop_playback_and_fading_cb_def process_map sample_half)

text \<open>
  When the stream ends during a fade and the main loop then dispatches the idle source
  that \<open>finish\<close> queued, \<open>aud_drct_stop\<close> has been called exactly once more, the gain
  is back at 1, the queue is as before and \<open>is_plugin_processing\<close> is cleared.
\<close>

lemma stop_callback_after_finish:
  "vol_reduction s \<noteq> 1 \<longrightarrow>
     idle_dispatch (fst (finish s data eop)) =
       s\<lparr>is_plugin_processing := False, playback_stops := playback_stops s + 1,
         vol_reduction := 1\<rparr>"
  by (simp add: finish_def Let_def stop_playback_and_fading_def idle_dispatch_def
      stop_playback_and_fading_cb_def)

lemma stop_callback_after_finish_example:
  "idle_dispatch
     (fst (finish (initial_state\<lparr>vol_reduction := 2, is_plugin_processing := True\<rparr>) [1] False)) =
   initial_state\<lparr>playback_stops := 1\<rparr>"
proof -
  let ?s = "initial_state\<lparr>vol_reduction := 2, is_plugin_processing := True\<rparr>"
  have "vol_reduction ?s \<noteq> 1" by simp
  with stop_callback_after_finish [of ?s "[1]" False]
  have "idle_dispatch (fst (finish ?s [1] False)) =
      ?s\<lparr>is_plugin_processing := False, playback_stops := playback_stops ?s + 1,
         vol_reduction := 1\<rparr>"
    by blast
  also have "\<dots> = initial_state\<lparr>playback_stops := 1\<rparr>"
    by (simp add: initial_state_def)
  finally show ?thesis .
qed

subsection \<open>Cleanup\<close>

text \<open>
  Claim C6 (amended). \<open>cleanup\<close> sets \<open>vol_reduction\<close> to 1 whatever the state, and
  removes the menu entry; it leaves \<open>is_plugin_processing\<close> as it was. A fading thread
  that sleeps while \<open>cleanup\<close> runs finds \<open>vol_reduction = 1\<close> at its next poll and
  leaves through \<open>g_thread_exit\<close>, the state being the one the other threads left.
\<close>

theorem cleanup_resets_gain_only:
  "cleanup s = s\<lparr>vol_reduction := 1, menu_item := False\<rparr> \<and>
   vol_reduction (cleanup s) = 1 \<and>
   is_plugin_processing (cleanup s) = is_plugin_processing s \<and>
   (fading_thread d s0 obs0 = (Sleeping, l, s) \<and> sleep_accounting l elapsed = Some l1 \<and>
    Plugin_cleanup \<in> set evs \<longrightarrow>
      fading_thread d s0 (obs0 @ (elapsed, evs) # obs) = (Exited, l1, host_events evs s) \<and>
      vol_reduction (host_events evs s) = 1)"
proof -
  have "fading_thread d s0 (obs0 @ (elapsed, evs) # obs) = (Exited, l1, host_events evs s) \<and>
      vol_reduction (host_events evs s) = 1"
    if run: "fading_thread d s0 obs0 = (Sleeping, l, s)"
      and acc: "sleep_accounting l elapsed = Some l1"
      and ev: "Plugin_cleanup \<in> set evs"
  proof -
    have one: "vol_reduction (host_events evs s) = 1"
      using ev by (rule host_events_cleanup)
    with run acc show ?thesis by (simp add: fading_thread_poll_exit)
  qed
  then show ?thesis by (simp add: cleanup_def)
qed

theorem cleanup_resets_gain_only_witness:
  "vol_reduction
     (cleanup (initial_state\<lparr>is_plugin_processing := True,
        vol_reduction := calculate_vol_reduction_amount 4\<rparr>)) = 1 \<and>
   is_plugin_processing
     (cleanup (initial_state\<lparr>is_plugin_processing := True,
        vol_reduction := calculate_vol_reduction_amount 4\<rparr>)) \<and>
   fading_thread 4 (initial_state\<lparr>is_plugin_processing := True\<rparr>)
       [(ten_milliseconds, [Plugin_cleanup])] =
     (Exited,
      \<lparr>vol_reduction_amount = calculate_vol_reduction_amount 4, target = 10000,
         remaining = 10000\<rparr>,
      initial_state\<lparr>is_plugin_processing := True\<rparr>)"
proof -
  let ?init = "initial_state\<lparr>is_plugin_processing := True\<rparr>"
  let ?a = "calculate_vol_reduction_amount 4"
  let ?l = "\<lparr>vol_reduction_amount = ?a, target = 10000, remaining = 0\<rparr>"
  let ?l1 = "\<lparr>vol_reduction_amount = ?a, target = 10000, remaining = 10000\<rparr>"
  let ?s = "?init\<lparr>vol_reduction := ?a\<rparr>"
  note T = cleanup_resets_gain_only [of ?s 4 ?init "[]" ?l ten_milliseconds ?l1 "[Plugin_cleanup]" "[]"]
  have run: "fading_thread 4 ?init [] = (Sleeping, ?l, ?s)"
    by (rule fading_thread_first_sleep) (simp_all add: initial_state_def)
  have acc: "sleep_accounting ?l ten_milliseconds = Some ?l1"
    by (rule sleep_accounting_on_time)
  have ev: "Plugin_cleanup \<in> set [Plugin_cleanup]" by simp
  have st: "host_events [Plugin_cleanup] ?s = ?init"
    by (simp add: cleanup_def initial_state_def)
  have t1: "vol_reduction (cleanup ?s) = 1" using T by blast
  have t2: "is_plugin_processing (cleanup ?s) = is_plugin_processing ?s" using T by blast
  have t3: "fading_thread 4 ?init ([] @ (ten_milliseconds, [Plugin_cleanup]) # []) =
      (Exited, ?l1, host_events [Plugin_cleanup] ?s)"
    using T run acc ev by blast
  have p: "is_plugin_processing ?s" by simp
  show ?thesis
    using t1 t2 t3 p by (simp only: st append_Nil simp_thms)
qed

text \<open>
  The claim as stated fails on the flag: after \<open>cleanup\<close> in the middle of a fade
  \<open>is_plugin_processing\<close> is still set.
\<close>

theorem cleanup_clears_flag_counterexample:
  "is_plugin_processing
     (cleanup (initial_state\<lparr>vol_reduction := 2, is_plugin_processing := True\<rparr>))"
  by (simp add: cleanup_def)

subsection \<open>The menu action\<close>

lemma fade_out_cb_Inr:
  assumes "fade_out_cb c s = Inr s'"
  shows "s' = s \<or>
       is_plugin_processing s \<and> vol_reduction s = 1 \<and>
       s' = s\<lparr>fading_threads := fading_threads s + 1\<rparr>"
proof (cases "is_plugin_processing s \<and> vol_reduction s = 1")
  case False
  with assms show ?thesis by (simp add: fade_out_cb_def)
next
  case True
  show ?thesis
  proof (cases c)
    case Thread_created
    with assms True show ?thesis
      by (simp add: fade_out_cb_def g_thread_unref_def)
  next
    case (Thread_failed m)
    with assms True show ?thesis
      by (simp add: fade_out_cb_def g_thread_unref_def)
  qed
qed

lemma fade_out_cb_vol:
  "fade_out_cb c s = Inr s' \<Longrightarrow> vol_reduction s' = vol_reduction s"
  using fade_out_cb_Inr [of c s s'] by auto

text \<open>
  Claim C8. When \<open>g_thread_try_new\<close> fails inside the guard, \<open>fade_out_cb\<close> passes
  the \<open>NULL\<close> it got to \<open>g_thread_unref\<close> before it looks at \<open>error\<close>: the call ends
  in the dereference, no warning is logged and no state is returned.
\<close>

theorem fade_out_cb_thread_failure:
  "fade_out_cb (Thread_failed ''Resource temporarily unavailable'')
     (initial_state\<lparr>is_plugin_processing := True\<rparr>) = Inl Null_dereference"
  by (simp add: fade_out_cb_def g_thread_unref_def initial_state_def)

text \<open>
  Outside the guard (\<open>is_plugin_processing\<close> set and \<open>vol_reduction = 1\<close>)
  \<open>fade_out_cb\<close> returns the state as it is: no thread, no warning. Whenever it
  returns, \<open>vol_reduction\<close> and \<open>is_plugin_processing\<close> are unchanged, and a thread
  has been created only inside the guard, and then exactly one. Once the fading thread
  sleeps in its loop, \<open>vol_reduction\<close> is above 1 and every further call is such a
  no-op.
\<close>

lemma fade_out_cb_guard:
  "(\<not> (is_plugin_processing s \<and> vol_reduction s = 1) \<longrightarrow> fade_out_cb c s = Inr s) \<and>
   (is_plugin_processing s \<and> vol_reduction s = 1 \<longrightarrow>
      fade_out_cb Thread_created s = Inr (s\<lparr>fading_threads := fading_threads s + 1\<rparr>)) \<and>
   (fade_out_cb c s = Inr s' \<longrightarrow>
      vol_reduction s' = vol_reduction s \<and>
      is_plugin_processing s' = is_plugin_processing s \<and>
      (s' = s \<or>
       is_plugin_processing s \<and> vol_reduction s = 1 \<and>
       s' = s\<lparr>fading_threads := fading_threads s + 1\<rparr>)) \<and>
   (1 \<le> d \<and> d \<le> 10 \<and> 1 \<le> vol_reduction s \<and> fading_thread d s obs = (Sleeping, l, s1) \<longrightarrow>
      fade_out_cb c s1 = Inr s1)"
proof (intro conjI impI)
  assume "\<not> (is_plugin_processing s \<and> vol_reduction s = 1)"
  then show "fade_out_cb c s = Inr s" by (auto simp: fade_out_cb_def)
next
  assume "is_plugin_processing s \<and> vol_reduction s = 1"
  then show "fade_out_cb Thread_created s = Inr (s\<lparr>fading_threads := fading_threads s + 1\<rparr>)"
    by (simp add: fade_out_cb_def g_thread_unref_def)
next
  assume r: "fade_out_cb c s = Inr s'"
  from fade_out_cb_Inr [OF r] show "vol_reduction s' = vol_reduction s" by auto
  from fade_out_cb_Inr [OF r] show "is_plugin_processing s' = is_plugin_processing s" by auto
  from fade_out_cb_Inr [OF r] show "s' = s \<or>
       is_plugin_processing s \<and> vol_reduction s = 1 \<and>
       s' = s\<lparr>fading_threads := fading_threads s + 1\<rparr>" .
next
  assume "1 \<le> d \<and> d \<le> 10 \<and> 1 \<le> vol_reduction s \<and> fading_thread d s obs = (Sleeping, l, s1)"
  then have "1 < vol_reduction s1" by (blast intro: fading_thread_sleeping_gt_1)
  then show "fade_out_cb c s1 = Inr s1" by (simp add: fade_out_cb_def)
qed

text \<open>
  Claim C3. The guard reads \<open>vol_reduction\<close>, and \<open>fade_out_cb\<close> does not write it:
  it stays 1 until the new thread has run its first \<open>vol_reduction *= vol_reduction_amount\<close>.
  A second call of \<open>fade_out_cb\<close> before that finds the guard open again and creates a
  second fading thread, although a fade has been started: the plugin is processing, the
  gain is 1, the menu action is activated twice, and two threads have been created.
\<close>

theorem fade_out_cb_second_thread:
  "fade_out_cb Thread_created (initial_state\<lparr>is_plugin_processing := True\<rparr>) =
     Inr (initial_state\<lparr>is_plugin_processing := True, fading_threads := 1\<rparr>) \<and>
   vol_reduction (initial_state\<lparr>is_plugin_processing := True, fading_threads := 1\<rparr>) = 1 \<and>
   fade_out_cb Thread_created
       (initial_state\<lparr>is_plugin_processing := True, fading_threads := 1\<rparr>) =
     Inr (initial_state\<lparr>is_plugin_processing := True, fading_threads := 2\<rparr>)"
  by (simp add: fade_out_cb_def g_thread_unref_def initial_state_def)

subsection \<open>The ramp\<close>

text \<open>
  Claim C4. For a duration in \<open>[1, 10]\<close> the step factor is greater than 1. From a
  state with \<open>vol_reduction \<ge> 1\<close> no operation of the plugin, no event of the host
  and no run of the fading thread leads to a state with \<open>vol_reduction < 1\<close>. Within one
  run of the fading thread the gain only grows as long as the thread is in its loop: the
  gain at a later sleep is at least (after a further iteration: greater than) the gain at
  any earlier sleep, which is greater than the gain the thread started from.
\<close>

theorem vol_reduction_monotone_and_at_least_one:
  assumes "1 \<le> d" "d \<le> 10" "1 \<le> vol_reduction s"
  shows "1 < calculate_vol_reduction_amount d \<and>
    1 \<le> vol_reduction (stop_playback_and_fading_cb s) \<and>
    1 \<le> vol_reduction (stop_playback_and_fading s) \<and>
    1 \<le> vol_reduction (idle_dispatch s) \<and>
    1 \<le> vol_reduction (fst (init s)) \<and>
    1 \<le> vol_reduction (cleanup s) \<and>
    1 \<le> vol_reduction (start s channels rate) \<and>
    1 \<le> vol_reduction (fst (finish s data eop)) \<and>
    (fade_out_cb c s = Inr s' \<longrightarrow> 1 \<le> vol_reduction s') \<and>
    1 \<le> vol_reduction (host_events evs s) \<and>
    (fading_thread d s obs = (st, l, s1) \<longrightarrow> 1 \<le> vol_reduction s1) \<and>
    (fading_thread d s (obs @ obs') = (Sleeping, l2, s2) \<longrightarrow>
       (\<exists>l1 s1. fading_thread d s obs = (Sleeping, l1, s1) \<and>
          vol_reduction s < vol_reduction s1 \<and>
          vol_reduction s1 \<le> vol_reduction s2 \<and>
          (obs' \<noteq> [] \<longrightarrow> vol_reduction s1 < vol_reduction s2)))"
proof (intro conjI impI)
  show "1 < calculate_vol_reduction_amount d"
    using assms(1,2) by (rule amount_gt_1)
  show "1 \<le> vol_reduction (stop_playback_and_fading_cb s)"
    by (simp add: stop_playback_and_fading_cb_def)
  show "1 \<le> vol_reduction (stop_playback_and_fading s)"
    using assms(3) by (simp add: stop_playback_and_fading_def)
  show "1 \<le> vol_reduction (idle_dispatch s)"
    using assms(3) by (simp add: idle_dispatch_def stop_playback_and_fading_cb_def)
  show "1 \<le> vol_reduction (fst (init s))"
    using assms(3) by (simp add: init_def)
  show "1 \<le> vol_reduction (cleanup s)"
    by (simp add: cleanup_def)
  show "1 \<le> vol_reduction (start s channels rate)"
    using assms(3) by (simp add: start_def)
  show "1 \<le> vol_reduction (fst (finish s data eop))"
    using assms(3) by (simp add: finish_def Let_def stop_playback_and_fading_def)
  show "1 \<le> vol_reduction (host_events evs s)"
    using assms(3) by (rule host_events_ge_1)
next
  assume "fade_out_cb c s = Inr s'"
  then show "1 \<le> vol_reduction s'" using assms(3) by (simp add: fade_out_cb_vol)
next
  assume "fading_thread d s obs = (st, l, s1)"
  with assms show "1 \<le> vol_reduction s1" by (rule fading_thread_ge_1)
next
  assume "fading_thread d s (obs @ obs') = (Sleeping, l2, s2)"
  with assms show "\<exists>l1 s1. fading_thread d s obs = (Sleeping, l1, s1) \<and>
          vol_reduction s < vol_reduction s1 \<and>
          vol_reduction s1 \<le> vol_reduction s2 \<and>
          (obs' \<noteq> [] \<longrightarrow> vol_reduction s1 < vol_reduction s2)"
    by (rule fading_thread_prefix_mono)
qed

theorem vol_reduction_monotone_and_at_least_one_witness:
  "1 < calculate_vol_reduction_amount 4 \<and>
   fading_thread 4 (initial_state\<lparr>is_plugin_processing := True\<rparr>) [(ten_milliseconds, [])] =
     (Sleeping,
      \<lparr>vol_reduction_amount = calculate_vol_reduction_amount 4, target = 10000,
         remaining = 10000\<rparr>,
      initial_state\<lparr>is_plugin_processing := True,
        vol_reduction := calculate_vol_reduction_amount 4 * calculate_vol_reduction_amount 4\<rparr>) \<and>
   vol_reduction (initial_state\<lparr>is_plugin_processing := True\<rparr>) <
     calculate_vol_reduction_amount 4 \<and>
   calculate_vol_reduction_amount 4 <
     calculate_vol_reduction_amount 4 * calculate_vol_reduction_amount 4"
proof -
  let ?p = "initial_state\<lparr>is_plugin_processing := True\<rparr>"
  let ?a = "calculate_vol_reduction_amount 4"
  let ?l = "\<lparr>vol_reduction_amount = ?a, target = 10000, remaining = 0\<rparr>"
  let ?m = "\<lparr>vol_reduction_amount = ?a, target = 10000, remaining = 10000\<rparr>"
  have d: "(1::real) \<le> 4" "(4::real) \<le> 10" by simp_all
  have v: "vol_reduction ?p = 1" by (simp add: initial_state_def)
  then have v1: "1 \<le> vol_reduction ?p" by simp
  note T = vol_reduction_monotone_and_at_least_one [OF d v1,
      of 2 44100 "[]" False Thread_created ?p "[]" "[]" Sleeping ?l "?p\<lparr>vol_reduction := ?a\<rparr>"
         "[(ten_milliseconds, [])]" ?m "?p\<lparr>vol_reduction := ?a * ?a\<rparr>"]
  have first: "fading_thread 4 ?p [] = (Sleeping, ?l, ?p\<lparr>vol_reduction := ?a\<rparr>)"
    using d(1) v by (rule fading_thread_first_sleep)
  have second: "fading_thread 4 ?p ([] @ [(ten_milliseconds, [])]) =
      (Sleeping, ?m, ?p\<lparr>vol_reduction := ?a * ?a\<rparr>)"
    using fading_thread_second_sleep [OF d v] by simp
  have t1: "1 < ?a" using T by blast
  from T second obtain l1 s1 where
    r: "fading_thread 4 ?p [] = (Sleeping, l1, s1)" and
    m1: "vol_reduction ?p < vol_reduction s1" and
    m2: "vol_reduction s1 < vol_reduction (?p\<lparr>vol_reduction := ?a * ?a\<rparr>)"
    by blast
  from r first have "s1 = ?p\<lparr>vol_reduction := ?a\<rparr>" by simp
  with m1 m2 have "vol_reduction ?p < ?a" "?a < ?a * ?a" by simp_all
  with t1 second show ?thesis by simp
qed

subsection \<open>The ramp without rounding\<close>

text \<open>
  In exact arithmetic (no rounding) and for a duration \<open>d\<close> in \<open>[1, 10]\<close>: the step factor
  raised to \<open>100 * d\<close> is the threshold, its \<open>n\<close>-th power is below the threshold exactly
  when \<open>n < 100 * d\<close>, and a thread that starts at gain 1 and sleeps on time and
  undisturbed is in its loop after \<open>k\<close> sleeps while \<open>k + 1 < 100 * d\<close>, and returns, with
  the stop queued and the gain reset, at the first \<open>k\<close> with \<open>100 * d \<le> k + 1\<close>.
\<close>

lemma ramp_in_exact_arithmetic:
  assumes "1 \<le> d" "d \<le> 10"
  shows "calculate_vol_reduction_amount d powr (100 * d) = MAX_VOL_REDUCTION \<and>
    (calculate_vol_reduction_amount d ^ n < MAX_VOL_REDUCTION \<longleftrightarrow> real n < 100 * d) \<and>
    (vol_reduction s = 1 \<and> real (Suc k) < 100 * d \<longrightarrow>
       (\<exists>l. fading_thread d s (replicate k (ten_milliseconds, [])) =
          (Sleeping, l, s\<lparr>vol_reduction := calculate_vol_reduction_amount d ^ Suc k\<rparr>))) \<and>
    (vol_reduction s = 1 \<and> real k < 100 * d \<and> 100 * d \<le> real (Suc k) \<longrightarrow>
       (\<exists>l. fading_thread d s (replicate k (ten_milliseconds, [])) =
          (Returned, l, s\<lparr>idle_sources := idle_sources s + 1, vol_reduction := 1\<rparr>)))"
proof (intro conjI impI)
  have d: "0 < d" using assms(1) by simp
  have "calculate_vol_reduction_amount d powr (100 * d) =
      MAX_VOL_REDUCTION powr (1 / (100 * d) * (100 * d))"
    by (simp only: calculate_vol_reduction_amount_def powr_powr)
  also have "1 / (100 * d) * (100 * d) = 1" using d by simp
  finally show "calculate_vol_reduction_amount d powr (100 * d) = MAX_VOL_REDUCTION"
    by simp
  show "calculate_vol_reduction_amount d ^ n < MAX_VOL_REDUCTION \<longleftrightarrow> real n < 100 * d"
  proof
    assume "calculate_vol_reduction_amount d ^ n < MAX_VOL_REDUCTION"
    then show "real n < 100 * d"
      using amount_power_ge_max [OF d, of n] by (cases "real n < 100 * d") simp_all
  next
    assume "real n < 100 * d"
    with d show "calculate_vol_reduction_amount d ^ n < MAX_VOL_REDUCTION"
      by (rule amount_power_lt_max)
  qed
next
  assume "vol_reduction s = 1 \<and> real (Suc k) < 100 * d"
  then show "\<exists>l. fading_thread d s (replicate k (ten_milliseconds, [])) =
      (Sleeping, l, s\<lparr>vol_reduction := calculate_vol_reduction_amount d ^ Suc k\<rparr>)"
    using fading_thread_on_time [OF assms, of s k] by blast
next
  assume "vol_reduction s = 1 \<and> real k < 100 * d \<and> 100 * d \<le> real (Suc k)"
  then show "\<exists>l. fading_thread d s (replicate k (ten_milliseconds, [])) =
      (Returned, l, s\<lparr>idle_sources := idle_sources s + 1, vol_reduction := 1\<rparr>)"
    using fading_thread_returns_on_time [OF assms, of s k] by blast
qed

lemma ramp_in_exact_arithmetic_example:
  "calculate_vol_reduction_amount 4 powr (100 * 4) = MAX_VOL_REDUCTION \<and>
   calculate_vol_reduction_amount 4 ^ 399 < MAX_VOL_REDUCTION \<and>
   \<not> calculate_vol_reduction_amount 4 ^ 400 < MAX_VOL_REDUCTION \<and>
   fst (fading_thread 4 initial_state (replicate 398 (ten_milliseconds, []))) = Sleeping \<and>
   fst (fading_thread 4 initial_state (replicate 399 (ten_milliseconds, []))) = Returned"
proof -
  have d: "(1::real) \<le> 4" "(4::real) \<le> 10" by simp_all
  have v: "vol_reduction initial_state = 1" by (simp add: initial_state_def)
  note A = ramp_in_exact_arithmetic [OF d, of 399 initial_state 398]
  note B = ramp_in_exact_arithmetic [OF d, of 400 initial_state 399]
  have c1: "calculate_vol_reduction_amount 4 powr (100 * 4) = MAX_VOL_REDUCTION"
    using A by blast
  have "real 399 < 100 * 4" by simp
  with A have c2: "calculate_vol_reduction_amount 4 ^ 399 < MAX_VOL_REDUCTION" by blast
  have "\<not> real 400 < 100 * 4" by simp
  with B have c3: "\<not> calculate_vol_reduction_amount 4 ^ 400 < MAX_VOL_REDUCTION" by blast
  have "vol_reduction initial_state = 1 \<and> real (Suc 398) < 100 * 4" using v by simp
  with A obtain l where "fading_thread 4 initial_state (replicate 398 (ten_milliseconds, [])) =
      (Sleeping, l, initial_state\<lparr>vol_reduction := calculate_vol_reduction_amount 4 ^ Suc 398\<rparr>)"
    by blast
  then have c4: "fst (fading_thread 4 initial_state (replicate 398 (ten_milliseconds, []))) = Sleeping"
    by (simp only: fst_conv)
  have "vol_reduction initial_state = 1 \<and> real 399 < 100 * 4 \<and> 100 * 4 \<le> real (Suc 399)"
    using v by simp
  with B obtain l where "fading_thread 4 initial_state (replicate 399 (ten_milliseconds, [])) =
      (Returned, l, initial_state\<lparr>idle_sources := idle_sources initial_state + 1,
         vol_reduction := 1\<rparr>)"
    by blast
  then have c5: "fst (fading_thread 4 initial_state (replicate 399 (ten_milliseconds, []))) = Returned"
    by (simp only: fst_conv)
  show ?thesis by (intro conjI c1 c2 c3 c4 c5)
qed

subsection \<open>The ramp in double arithmetic\<close>

lemma rounded_gain_Suc:
  "rounded_gain a g (e # errs) (Suc k) = rounded_gain a (g * a * (1 + e)) errs k"
  by (simp add: rounded_gain_def mult_ac)

lemma rounded_gain_1: "rounded_gain a g (e # errs) (Suc 0) = g * a * (1 + e)"
  by (simp add: rounded_gain_def)

lemma rounded_ramp_Some:
  assumes "rounded_ramp a g errs = Some N"
  shows "1 \<le> N \<and> N \<le> length errs \<and> MAX_VOL_REDUCTION \<le> rounded_gain a g errs N \<and>
         (\<forall>k. 1 \<le> k \<and> k < N \<longrightarrow> rounded_gain a g errs k < MAX_VOL_REDUCTION)"
  using assms
proof (induction errs arbitrary: g N)
  case Nil
  then show ?case by simp
next
  case (Cons e errs)
  let ?g = "g * a * (1 + e)"
  show ?case
  proof (cases "?g < MAX_VOL_REDUCTION")
    case False
    with Cons.prems have "N = 1" by (simp add: Let_def)
    with False show ?thesis by (simp add: rounded_gain_1)
  next
    case True
    with Cons.prems obtain M where M: "rounded_ramp a ?g errs = Some M" and N: "N = Suc M"
      by (auto simp: Let_def split: if_splits)
    from Cons.IH [OF M] have ih:
      "1 \<le> M" "M \<le> length errs" "MAX_VOL_REDUCTION \<le> rounded_gain a ?g errs M"
      "\<And>k. 1 \<le> k \<Longrightarrow> k < M \<Longrightarrow> rounded_gain a ?g errs k < MAX_VOL_REDUCTION"
      by blast+
    have below: "rounded_gain a g (e # errs) k < MAX_VOL_REDUCTION" if "1 \<le> k" "k < N" for k
    proof (cases k)
      case 0
      with that show ?thesis by simp
    next
      case (Suc j)
      show ?thesis
      proof (cases "j = 0")
        case True
        then show ?thesis using \<open>?g < MAX_VOL_REDUCTION\<close> Suc by (simp add: rounded_gain_1)
      next
        case False
        then have "1 \<le> j" "j < M" using that Suc N by simp_all
        then show ?thesis using ih(4) [of j] by (simp only: Suc rounded_gain_Suc)
      qed
    qed
    have "MAX_VOL_REDUCTION \<le> rounded_gain a g (e # errs) N"
      using ih(3) by (simp only: N rounded_gain_Suc)
    with below ih(1,2) N show ?thesis by simp
  qed
qed

lemma rounded_ramp_defined:
  assumes "1 \<le> k" "k \<le> length errs" "MAX_VOL_REDUCTION \<le> rounded_gain a g errs k"
    and "\<forall>j. 1 \<le> j \<and> j \<le> k \<longrightarrow> rounded_gain a g errs j \<noteq> 1"
  shows "\<exists>N. rounded_ramp a g errs = Some N"
  using assms
proof (induction errs arbitrary: g k)
  case Nil
  then show ?case by simp
next
  case (Cons e errs)
  let ?g = "g * a * (1 + e)"
  show ?case
  proof (cases "?g < MAX_VOL_REDUCTION")
    case False
    then show ?thesis by (simp add: Let_def)
  next
    case True
    obtain j where k: "k = Suc j" using Cons.prems(1) by (cases k) simp_all
    have "j \<noteq> 0"
    proof
      assume "j = 0"
      with Cons.prems(3) k have "MAX_VOL_REDUCTION \<le> ?g" by (simp add: rounded_gain_1)
      with True show False by simp
    qed
    then have j1: "1 \<le> j" by simp
    have "rounded_gain a g (e # errs) (Suc 0) \<noteq> 1"
      using Cons.prems(4) k by simp
    then have ne: "?g \<noteq> 1" by (simp add: rounded_gain_1)
    have jl: "j \<le> length errs" using Cons.prems(2) k by simp
    have top: "MAX_VOL_REDUCTION \<le> rounded_gain a ?g errs j"
      using Cons.prems(3) by (simp only: k rounded_gain_Suc)
    have rest: "\<forall>i. 1 \<le> i \<and> i \<le> j \<longrightarrow> rounded_gain a ?g errs i \<noteq> 1"
    proof (intro allI impI)
      fix i assume "1 \<le> i \<and> i \<le> j"
      then have "1 \<le> Suc i \<and> Suc i \<le> k" using k by simp
      then have "rounded_gain a g (e # errs) (Suc i) \<noteq> 1" using Cons.prems(4) by blast
      then show "rounded_gain a ?g errs i \<noteq> 1" unfolding rounded_gain_Suc .
    qed
    from Cons.IH [OF j1 jl top rest] obtain M where "rounded_ramp a ?g errs = Some M"
      by blast
    with True ne show ?thesis by (simp add: Let_def)
  qed
qed

lemma error_product_bounds:
  fixes w :: real
  assumes "0 \<le> w" "\<forall>e \<in> set es. \<bar>e\<bar> \<le> w" "2 * real (length es) * w \<le> 1"
  shows "1 - real (length es) * w \<le> prod_list (map (\<lambda>e. 1 + e) es) \<and>
         prod_list (map (\<lambda>e. 1 + e) es) \<le> 1 + 2 * real (length es) * w"
  using assms(2,3)
proof (induction es)
  case Nil
  show ?case by simp
next
  case (Cons e es)
  let ?n = "real (length es)"
  let ?P = "prod_list (map (\<lambda>e. 1 + e) es)"
  have e: "1 - w \<le> 1 + e" "1 + e \<le> 1 + w" using Cons.prems(1) by (auto simp: abs_le_iff)
  have nw: "2 * ?n * w \<le> 1 - 2 * w" using Cons.prems(2) by (simp add: algebra_simps)
  then have nw': "2 * ?n * w \<le> 1" using assms(1) by linarith
  have w1: "w \<le> 1 / 2"
  proof -
    have "0 \<le> 2 * ?n * w" using assms(1) by simp
    with nw show ?thesis by linarith
  qed
  from Cons.IH nw' Cons.prems(1) have ih: "1 - ?n * w \<le> ?P" "?P \<le> 1 + 2 * ?n * w" by auto
  have nn: "0 \<le> ?n * w" using assms(1) by simp
  have lo0: "0 \<le> 1 - ?n * w" using nw' assms(1) by linarith
  have P0: "0 \<le> ?P" using ih(1) lo0 by linarith
  have "(1 - w) * (1 - ?n * w) \<le> (1 + e) * ?P"
    using e(1) ih(1) lo0 w1 by (intro mult_mono) linarith+
  moreover have "1 - (?n + 1) * w \<le> (1 - w) * (1 - ?n * w)"
  proof -
    have "(1 - w) * (1 - ?n * w) = 1 - (?n + 1) * w + w * (?n * w)" by (simp add: algebra_simps)
    moreover have "0 \<le> w * (?n * w)" using assms(1) nn by (rule mult_nonneg_nonneg)
    ultimately show ?thesis by linarith
  qed
  ultimately have lower: "1 - (?n + 1) * w \<le> (1 + e) * ?P" by linarith
  have "(1 + e) * ?P \<le> (1 + w) * (1 + 2 * ?n * w)"
    using e(2) ih(2) P0 assms(1) by (intro mult_mono) linarith+
  moreover have "(1 + w) * (1 + 2 * ?n * w) \<le> 1 + 2 * (?n + 1) * w"
  proof -
    have "(1 + w) * (1 + 2 * ?n * w) = 1 + 2 * ?n * w + w + w * (2 * ?n * w)"
      by (simp add: algebra_simps)
    moreover have "w * (2 * ?n * w) \<le> w * 1"
      using nw' assms(1) by (intro mult_left_mono)
    ultimately show ?thesis by (simp add: algebra_simps)
  qed
  ultimately have upper: "(1 + e) * ?P \<le> 1 + 2 * (?n + 1) * w" by linarith
  from lower upper show ?case by (simp add: algebra_simps)
qed

lemma ln_200_ge_1: "1 \<le> ln (200::real)"
proof -
  have "exp 1 \<le> (200::real)" using exp_le by linarith
  then show ?thesis by (simp add: ln_ge_iff)
qed

lemma powr_200_ge:
  assumes "0 \<le> m"
  shows "1 + m \<le> (200::real) powr m"
proof -
  have "1 + m \<le> 1 + m * ln 200"
    using assms ln_200_ge_1 mult_left_mono [of 1 "ln (200::real)" m] by simp
  also have "\<dots> \<le> exp (m * ln 200)" by (rule exp_ge_add_one_self)
  finally show ?thesis by (simp add: powr_def)
qed


lemma rounded_gain_amount:
  "rounded_gain (rounded_amount d e1 e2 e3) 1 errs k =
     MAX_VOL_REDUCTION powr (real k / (100 * d) * ((1 + e2) / (1 + e1))) *
       prod_list (map (\<lambda>e. 1 + e) (replicate k e3 @ take k errs))"
proof -
  let ?y = "1 / (100 * d * (1 + e1)) * (1 + e2)"
  have "(MAX_VOL_REDUCTION powr ?y * (1 + e3)) ^ k =
      (MAX_VOL_REDUCTION powr ?y) ^ k * (1 + e3) ^ k"
    by (rule power_mult_distrib)
  also have "(MAX_VOL_REDUCTION powr ?y) ^ k = (MAX_VOL_REDUCTION powr ?y) powr real k"
    by (simp add: powr_realpow)
  also have "\<dots> = MAX_VOL_REDUCTION powr (?y * real k)"
    by (rule powr_powr)
  also have "?y * real k = real k / (100 * d) * ((1 + e2) / (1 + e1))"
    by simp
  finally have "rounded_amount d e1 e2 e3 ^ k =
      MAX_VOL_REDUCTION powr (real k / (100 * d) * ((1 + e2) / (1 + e1))) * (1 + e3) ^ k"
    by (simp only: rounded_amount_def)
  then show ?thesis
    by (simp add: rounded_gain_def prod_list_replicate mult.assoc)
qed

lemma rounding_factor_bounds:
  fixes e1 e2 :: real
  assumes "\<bar>e1\<bar> \<le> 1 / 2 ^ 53" "\<bar>e2\<bar> \<le> 1 / 2 ^ 53"
  shows "1 - 1 / 10 ^ 9 \<le> (1 + e2) / (1 + e1)" and "(1 + e2) / (1 + e1) \<le> 1 + 1 / 10 ^ 9"
proof -
  have b1: "1 - 1 / 2 ^ 53 \<le> 1 + e1" "1 + e1 \<le> 1 + 1 / 2 ^ 53"
    using assms(1) by (auto simp: abs_le_iff)
  have b2: "1 - 1 / 2 ^ 53 \<le> 1 + e2" "1 + e2 \<le> 1 + 1 / 2 ^ 53"
    using assms(2) by (auto simp: abs_le_iff)
  have pos: "0 < 1 + e1" using b1(1) by simp
  have "(1 - 1 / 10 ^ 9) * (1 + e1) \<le> (1 - 1 / 10 ^ 9) * (1 + 1 / 2 ^ 53)"
    using b1(2) by (intro mult_left_mono) simp_all
  also have "\<dots> \<le> 1 - 1 / 2 ^ 53" by simp
  also have "\<dots> \<le> 1 + e2" by (rule b2(1))
  finally show "1 - 1 / 10 ^ 9 \<le> (1 + e2) / (1 + e1)"
    using pos by (simp add: pos_le_divide_eq)
  have "1 + e2 \<le> 1 + 1 / 2 ^ 53" by (rule b2(2))
  also have "\<dots> \<le> (1 + 1 / 10 ^ 9) * (1 - 1 / 2 ^ 53)" by simp
  also have "\<dots> \<le> (1 + 1 / 10 ^ 9) * (1 + e1)"
    using b1(1) by (intro mult_left_mono) simp_all
  finally show "(1 + e2) / (1 + e1) \<le> 1 + 1 / 10 ^ 9"
    using pos by (simp add: pos_divide_le_eq)
qed

lemma rounding_product_bounds:
  fixes e3 :: real
  assumes "\<bar>e3\<bar> \<le> 1 / 2 ^ 52" "\<forall>e \<in> set errs. \<bar>e\<bar> \<le> 1 / 2 ^ 53" "k \<le> 1002"
  shows "1 - 1 / 10 ^ 9 \<le> prod_list (map (\<lambda>e. 1 + e) (replicate k e3 @ take k errs))"
    and "prod_list (map (\<lambda>e. 1 + e) (replicate k e3 @ take k errs)) \<le> 1 + 1 / 10 ^ 9"
proof -
  let ?es = "replicate k e3 @ take k errs"
  let ?w = "1 / 2 ^ 52 :: real"
  have len: "real (length ?es) \<le> 2004" using assms(3) by simp
  have all: "\<forall>e \<in> set ?es. \<bar>e\<bar> \<le> ?w"
  proof
    fix e assume "e \<in> set ?es"
    then consider "e = e3" | "e \<in> set errs" by (auto dest: in_set_takeD)
    then show "\<bar>e\<bar> \<le> ?w"
    proof cases
      case 1
      with assms(1) show ?thesis by simp
    next
      case 2
      with assms(2) have "\<bar>e\<bar> \<le> 1 / 2 ^ 53" by blast
      then show ?thesis by simp
    qed
  qed
  have "real (length ?es) * ?w \<le> 2004 * ?w"
    using len by (intro mult_right_mono) simp_all
  then have small: "real (length ?es) * ?w \<le> 2004 / 2 ^ 52" by simp
  define L where "L = real (length ?es) * ?w"
  define P where "P = prod_list (map (\<lambda>e. 1 + e) ?es)"
  have "2 * real (length ?es) * ?w \<le> 1" using small by simp
  with error_product_bounds [of ?w ?es] all
  have "1 - real (length ?es) * ?w \<le> prod_list (map (\<lambda>e. 1 + e) ?es) \<and>
    prod_list (map (\<lambda>e. 1 + e) ?es) \<le> 1 + 2 * real (length ?es) * ?w"
    by simp
  then have b: "1 - L \<le> P" "P \<le> 1 + 2 * L"
    by (simp_all only: L_def P_def mult.assoc)
  have "(2004 :: real) / 2 ^ 52 \<le> 1 / 2000000000" by simp
  with small have s: "L \<le> 1 / 2000000000" unfolding L_def by linarith
  have c: "(1 :: real) / 10 ^ 9 = 1 / 1000000000" by simp
  from b(1) s have "1 - 1 / 1000000000 \<le> P" by linarith
  then show "1 - 1 / 10 ^ 9 \<le> prod_list (map (\<lambda>e. 1 + e) ?es)"
    by (simp only: c P_def)
  from b(2) s have "P \<le> 1 + 1 / 1000000000" by linarith
  then show "prod_list (map (\<lambda>e. 1 + e) ?es) \<le> 1 + 1 / 10 ^ 9"
    by (simp only: c P_def)
qed


lemma rounded_gain_below:
  assumes "1 \<le> d" "d \<le> 10"
    and "\<bar>e1\<bar> \<le> 1 / 2 ^ 53" "\<bar>e2\<bar> \<le> 1 / 2 ^ 53" "\<bar>e3\<bar> \<le> 1 / 2 ^ 52"
    and "\<forall>e \<in> set errs. \<bar>e\<bar> \<le> 1 / 2 ^ 53"
    and "real k \<le> 100 * d - 1 / 1000"
  shows "rounded_gain (rounded_amount d e1 e2 e3) 1 errs k < MAX_VOL_REDUCTION"
proof -
  define x where "x = 100 * d"
  define q where "q = real k / x"
  define \<rho> where "\<rho> = (1 + e2) / (1 + e1)"
  define E where "E = prod_list (map (\<lambda>e. 1 + e) (replicate k e3 @ take k errs))"
  define m :: real where "m = 9 / 10000000"
  have x: "100 \<le> x" "x \<le> 1000" using assms(1,2) by (simp_all add: x_def)
  have k: "real k \<le> x - 1 / 1000" using assms(7) by (simp add: x_def)
  then have "real k \<le> 1002" using x by linarith
  then have k': "k \<le> 1002" by simp
  have "real k \<le> x * (1 - 1 / 1000000)" using k x by (simp add: algebra_simps)
  then have q1: "q \<le> 1 - 1 / 1000000"
    using x by (simp add: q_def pos_divide_le_eq mult.commute)
  have q0: "0 \<le> q" using x by (simp add: q_def)
  have r: "1 - 1 / 1000000000 \<le> \<rho>" "\<rho> \<le> 1 + 1 / 1000000000"
    using rounding_factor_bounds [OF assms(3,4)] by (simp_all add: \<rho>_def)
  have Eb: "1 - 1 / 1000000000 \<le> E" "E \<le> 1 + 1 / 1000000000"
    using rounding_product_bounds [OF assms(5,6) k'] by (simp_all add: E_def)
  have "q * \<rho> \<le> (1 - 1 / 1000000) * (1 + 1 / 1000000000)"
  proof (rule mult_mono)
    show "q \<le> 1 - 1 / 1000000" by (rule q1)
    show "\<rho> \<le> 1 + 1 / 1000000000" by (rule r(2))
    show "(0::real) \<le> 1 - 1 / 1000000" by simp
    show "0 \<le> \<rho>" using r(1) by linarith
  qed
  also have "\<dots> \<le> 1 - m" by (simp add: m_def)
  finally have ex: "q * \<rho> \<le> 1 - m" .
  have "MAX_VOL_REDUCTION powr (q * \<rho>) \<le> MAX_VOL_REDUCTION powr (1 - m)"
    using ex by (intro powr_mono) simp_all
  also have "\<dots> = MAX_VOL_REDUCTION powr 1 / MAX_VOL_REDUCTION powr m"
    by (rule powr_diff)
  also have "\<dots> = 200 / MAX_VOL_REDUCTION powr m" by simp
  also have "\<dots> \<le> 200 / (1 + m)"
    using powr_200_ge [of m] by (intro divide_left_mono) (simp_all add: m_def)
  finally have T: "MAX_VOL_REDUCTION powr (q * \<rho>) \<le> 200 / (1 + m)" .
  have "MAX_VOL_REDUCTION powr (q * \<rho>) * E \<le> 200 / (1 + m) * (1 + 1 / 1000000000)"
  proof (rule mult_mono)
    show "MAX_VOL_REDUCTION powr (q * \<rho>) \<le> 200 / (1 + m)" by (rule T)
    show "E \<le> 1 + 1 / 1000000000" by (rule Eb(2))
    show "0 \<le> 200 / (1 + m)" by (simp add: m_def)
    show "0 \<le> E" using Eb(1) by linarith
  qed
  also have "\<dots> < 200" by (simp add: m_def)
  finally have "MAX_VOL_REDUCTION powr (q * \<rho>) * E < 200" .
  then show ?thesis
    by (simp only: rounded_gain_amount q_def \<rho>_def E_def x_def)
qed

lemma rounded_gain_above:
  assumes "1 \<le> d" "d \<le> 10"
    and "\<bar>e1\<bar> \<le> 1 / 2 ^ 53" "\<bar>e2\<bar> \<le> 1 / 2 ^ 53" "\<bar>e3\<bar> \<le> 1 / 2 ^ 52"
    and "\<forall>e \<in> set errs. \<bar>e\<bar> \<le> 1 / 2 ^ 53"
    and "100 * d + 1 / 1000 \<le> real k" "k \<le> 1002"
  shows "MAX_VOL_REDUCTION \<le> rounded_gain (rounded_amount d e1 e2 e3) 1 errs k"
proof -
  define x where "x = 100 * d"
  define q where "q = real k / x"
  define \<rho> where "\<rho> = (1 + e2) / (1 + e1)"
  define E where "E = prod_list (map (\<lambda>e. 1 + e) (replicate k e3 @ take k errs))"
  define m :: real where "m = 9 / 10000000"
  have x: "100 \<le> x" "x \<le> 1000" using assms(1,2) by (simp_all add: x_def)
  have k: "x + 1 / 1000 \<le> real k" using assms(7) by (simp add: x_def)
  have "x * (1 + 1 / 1000000) \<le> real k" using k x by (simp add: algebra_simps)
  then have q1: "1 + 1 / 1000000 \<le> q"
    using x by (simp add: q_def pos_le_divide_eq mult.commute)
  have r: "1 - 1 / 1000000000 \<le> \<rho>" "\<rho> \<le> 1 + 1 / 1000000000"
    using rounding_factor_bounds [OF assms(3,4)] by (simp_all add: \<rho>_def)
  have Eb: "1 - 1 / 1000000000 \<le> E" "E \<le> 1 + 1 / 1000000000"
    using rounding_product_bounds [OF assms(5,6,8)] by (simp_all add: E_def)
  have "1 + m \<le> (1 + 1 / 1000000) * (1 - 1 / 1000000000)" by (simp add: m_def)
  also have "\<dots> \<le> q * \<rho>"
  proof (rule mult_mono)
    show "1 + 1 / 1000000 \<le> q" by (rule q1)
    show "1 - 1 / 1000000000 \<le> \<rho>" by (rule r(1))
    show "0 \<le> q" using q1 by linarith
    show "(0::real) \<le> 1 - 1 / 1000000000" by simp
  qed
  finally have ex: "1 + m \<le> q * \<rho>" .
  have "200 * (1 + m) \<le> MAX_VOL_REDUCTION powr 1 * MAX_VOL_REDUCTION powr m"
    using powr_200_ge [of m] by (simp add: m_def)
  also have "\<dots> = MAX_VOL_REDUCTION powr (1 + m)"
    by (rule powr_add [symmetric])
  also have "\<dots> \<le> MAX_VOL_REDUCTION powr (q * \<rho>)"
    using ex by (intro powr_mono) simp_all
  finally have T: "200 * (1 + m) \<le> MAX_VOL_REDUCTION powr (q * \<rho>)" .
  have "200 \<le> 200 * (1 + m) * (1 - 1 / 1000000000)" by (simp add: m_def)
  also have "\<dots> \<le> MAX_VOL_REDUCTION powr (q * \<rho>) * E"
  proof (rule mult_mono)
    show "200 * (1 + m) \<le> MAX_VOL_REDUCTION powr (q * \<rho>)" by (rule T)
    show "1 - 1 / 1000000000 \<le> E" by (rule Eb(1))
    show "0 \<le> MAX_VOL_REDUCTION powr (q * \<rho>)" by simp
    show "(0::real) \<le> 1 - 1 / 1000000000" by simp
  qed
  finally have "200 \<le> MAX_VOL_REDUCTION powr (q * \<rho>) * E" .
  then show ?thesis
    by (simp only: rounded_gain_amount q_def \<rho>_def E_def x_def)
qed


lemma rounded_gain_gt_1:
  assumes "1 \<le> d" "d \<le> 10"
    and "\<bar>e1\<bar> \<le> 1 / 2 ^ 53" "\<bar>e2\<bar> \<le> 1 / 2 ^ 53" "\<bar>e3\<bar> \<le> 1 / 2 ^ 52"
    and "\<forall>e \<in> set errs. \<bar>e\<bar> \<le> 1 / 2 ^ 53"
    and "1 \<le> k" "k \<le> 1002"
  shows "1 < rounded_gain (rounded_amount d e1 e2 e3) 1 errs k"
proof -
  define x where "x = 100 * d"
  define q where "q = real k / x"
  define \<rho> where "\<rho> = (1 + e2) / (1 + e1)"
  define E where "E = prod_list (map (\<lambda>e. 1 + e) (replicate k e3 @ take k errs))"
  define m :: real where "m = 9 / 10000"
  have x: "100 \<le> x" "x \<le> 1000" using assms(1,2) by (simp_all add: x_def)
  have "x * (1 / 1000) \<le> 1" using x by simp
  also have "1 \<le> real k" using assms(7) by simp
  finally have q1: "1 / 1000 \<le> q"
    using x by (simp add: q_def pos_le_divide_eq mult.commute)
  have r: "1 - 1 / 1000000000 \<le> \<rho>" "\<rho> \<le> 1 + 1 / 1000000000"
    using rounding_factor_bounds [OF assms(3,4)] by (simp_all add: \<rho>_def)
  have Eb: "1 - 1 / 1000000000 \<le> E" "E \<le> 1 + 1 / 1000000000"
    using rounding_product_bounds [OF assms(5,6,8)] by (simp_all add: E_def)
  have "m \<le> 1 / 1000 * (1 - 1 / 1000000000)" by (simp add: m_def)
  also have "\<dots> \<le> q * \<rho>"
  proof (rule mult_mono)
    show "1 / 1000 \<le> q" by (rule q1)
    show "1 - 1 / 1000000000 \<le> \<rho>" by (rule r(1))
    show "0 \<le> q" using q1 by linarith
    show "(0::real) \<le> 1 - 1 / 1000000000" by simp
  qed
  finally have ex: "m \<le> q * \<rho>" .
  have "1 + m \<le> MAX_VOL_REDUCTION powr m"
    by (rule powr_200_ge) (simp add: m_def)
  also have "\<dots> \<le> MAX_VOL_REDUCTION powr (q * \<rho>)"
    using ex by (intro powr_mono) simp_all
  finally have T: "1 + m \<le> MAX_VOL_REDUCTION powr (q * \<rho>)" .
  have "1 < (1 + m) * (1 - 1 / 1000000000)" by (simp add: m_def)
  also have "\<dots> \<le> MAX_VOL_REDUCTION powr (q * \<rho>) * E"
  proof (rule mult_mono)
    show "1 + m \<le> MAX_VOL_REDUCTION powr (q * \<rho>)" by (rule T)
    show "1 - 1 / 1000000000 \<le> E" by (rule Eb(1))
    show "0 \<le> MAX_VOL_REDUCTION powr (q * \<rho>)" by simp
    show "(0::real) \<le> 1 - 1 / 1000000000" by simp
  qed
  finally have "1 < MAX_VOL_REDUCTION powr (q * \<rho>) * E" .
  then show ?thesis
    by (simp only: rounded_gain_amount q_def \<rho>_def E_def x_def)
qed

lemma rounded_ramp_bounds:
  assumes "1 \<le> d" "d \<le> 10"
    and "\<bar>e1\<bar> \<le> 1 / 2 ^ 53" "\<bar>e2\<bar> \<le> 1 / 2 ^ 53" "\<bar>e3\<bar> \<le> 1 / 2 ^ 52"
    and "\<forall>e \<in> set errs. \<bar>e\<bar> \<le> 1 / 2 ^ 53" "1002 \<le> length errs"
  shows "\<exists>N. rounded_ramp (rounded_amount d e1 e2 e3) 1 errs = Some N \<and>
           100 * d - 1 / 1000 < real N \<and> real N < 100 * d + 1 + 1 / 1000 \<and>
           MAX_VOL_REDUCTION \<le> rounded_gain (rounded_amount d e1 e2 e3) 1 errs N \<and>
           (\<forall>k. 1 \<le> k \<and> k < N \<longrightarrow>
              rounded_gain (rounded_amount d e1 e2 e3) 1 errs k < MAX_VOL_REDUCTION)"
proof -
  let ?a = "rounded_amount d e1 e2 e3"
  define K where "K = nat \<lceil>100 * d + 1 / 1000\<rceil>"
  have pos: "0 \<le> \<lceil>100 * d + 1 / 1000\<rceil>" using assms(1) by (simp add: le_ceiling_iff)
  have K1: "100 * d + 1 / 1000 \<le> real K"
    using pos by (simp add: K_def le_of_int_ceiling)
  have K2: "real K < 100 * d + 1 / 1000 + 1"
    using pos ceiling_correct [of "100 * d + 1 / 1000"] by (simp add: K_def)
  have "real K < 1002" using K2 assms(2) by linarith
  then have K3: "K \<le> 1002" by simp
  have "1 \<le> real K" using K1 assms(1) by linarith
  then have K0: "1 \<le> K" by simp
  have top: "MAX_VOL_REDUCTION \<le> rounded_gain ?a 1 errs K"
    using assms(1-6) K1 K3 by (rule rounded_gain_above)
  have ne: "\<forall>j. 1 \<le> j \<and> j \<le> K \<longrightarrow> rounded_gain ?a 1 errs j \<noteq> 1"
  proof (intro allI impI)
    fix j assume j: "1 \<le> j \<and> j \<le> K"
    then have "j \<le> 1002" using K3 by simp
    with assms(1-6) j have "1 < rounded_gain ?a 1 errs j"
      by (intro rounded_gain_gt_1) simp_all
    then show "rounded_gain ?a 1 errs j \<noteq> 1" by simp
  qed
  have "K \<le> length errs" using K3 assms(7) by simp
  with K0 top ne obtain N where N: "rounded_ramp ?a 1 errs = Some N"
    using rounded_ramp_defined [of K errs ?a 1] by blast
  from rounded_ramp_Some [OF N] have
    g: "MAX_VOL_REDUCTION \<le> rounded_gain ?a 1 errs N" and
    b: "\<forall>k. 1 \<le> k \<and> k < N \<longrightarrow> rounded_gain ?a 1 errs k < MAX_VOL_REDUCTION"
    by blast+
  have "\<not> K < N"
  proof
    assume "K < N"
    with K0 b have "rounded_gain ?a 1 errs K < MAX_VOL_REDUCTION" by blast
    with top show False by simp
  qed
  then have "real N \<le> real K" by simp
  with K2 have up: "real N < 100 * d + 1 + 1 / 1000" by linarith
  have lo: "100 * d - 1 / 1000 < real N"
  proof (rule ccontr)
    assume "\<not> 100 * d - 1 / 1000 < real N"
    then have "real N \<le> 100 * d - 1 / 1000" by simp
    with assms(1-6) have "rounded_gain ?a 1 errs N < MAX_VOL_REDUCTION"
      by (rule rounded_gain_below)
    with g show False by simp
  qed
  from N lo up g b show ?thesis by blast
qed

lemma no_error_product:
  "\<forall>e \<in> set es. e = (0::real) \<Longrightarrow> prod_list (map (\<lambda>e. 1 + e) es) = 1"
  by (induction es) simp_all

lemma rounded_amount_exact:
  "rounded_amount d 0 0 0 = calculate_vol_reduction_amount d"
  by (simp add: rounded_amount_def calculate_vol_reduction_amount_def)

lemma rounded_gain_exact:
  assumes "\<forall>e \<in> set errs. e = 0"
  shows "rounded_gain (rounded_amount d 0 0 0) 1 errs k = calculate_vol_reduction_amount d ^ k"
proof -
  have "\<forall>e \<in> set (take k errs). e = 0" using assms by (auto dest: in_set_takeD)
  then have "prod_list (map (\<lambda>e. 1 + e) (take k errs)) = 1" by (rule no_error_product)
  then show ?thesis by (simp add: rounded_gain_def rounded_amount_exact)
qed

text \<open>
  Claim C1 (amended). The step factor is \<open>200\<close> to the power \<open>1 / (100 * duration)\<close>
  computed in doubles: in exact arithmetic it is that power, and raised to
  \<open>100 * duration\<close> it gives 200. For a duration in \<open>[1, 10]\<close>, with every product and
  quotient rounded with a relative error of at most \<open>2 ^ -53\<close> and \<open>pow\<close> with at most
  \<open>2 ^ -52\<close>, the gain of an undisturbed thread, starting from 1, reaches the threshold
  after \<open>N\<close> multiplications with \<open>100 * duration - 0.001 < N < 100 * duration + 1.001\<close>:
  when \<open>100 * duration\<close> is a whole number \<open>n\<close>, after \<open>n\<close> or \<open>n + 1\<close>
  multiplications, and after exactly \<open>n\<close> when nothing is rounded.
\<close>

theorem rounded_ramp_steps:
  assumes "1 \<le> d" "d \<le> 10"
    and "\<bar>e1\<bar> \<le> 1 / 2 ^ 53" "\<bar>e2\<bar> \<le> 1 / 2 ^ 53" "\<bar>e3\<bar> \<le> 1 / 2 ^ 52"
    and "\<forall>e \<in> set errs. \<bar>e\<bar> \<le> 1 / 2 ^ 53" "1002 \<le> length errs"
  shows "rounded_amount d 0 0 0 = MAX_VOL_REDUCTION powr (1 / (100 * d)) \<and>
    rounded_amount d 0 0 0 powr (100 * d) = MAX_VOL_REDUCTION \<and>
    (\<exists>N. rounded_ramp (rounded_amount d e1 e2 e3) 1 errs = Some N \<and>
       100 * d - 1 / 1000 < real N \<and> real N < 100 * d + 1 + 1 / 1000 \<and>
       (100 * d = real n \<longrightarrow> N = n \<or> N = Suc n) \<and>
       (100 * d = real n \<and> e1 = 0 \<and> e2 = 0 \<and> e3 = 0 \<and> (\<forall>e \<in> set errs. e = 0) \<longrightarrow> N = n))"
proof (intro conjI)
  show "rounded_amount d 0 0 0 = MAX_VOL_REDUCTION powr (1 / (100 * d))"
    by (simp add: rounded_amount_def)
  have "calculate_vol_reduction_amount d powr (100 * d) = MAX_VOL_REDUCTION"
    using ramp_in_exact_arithmetic [OF assms(1,2)] by blast
  then show "rounded_amount d 0 0 0 powr (100 * d) = MAX_VOL_REDUCTION"
    by (simp only: rounded_amount_exact)
  let ?a = "rounded_amount d e1 e2 e3"
  from rounded_ramp_bounds [OF assms] obtain N where
    N: "rounded_ramp ?a 1 errs = Some N" and
    lo: "100 * d - 1 / 1000 < real N" and
    up: "real N < 100 * d + 1 + 1 / 1000" and
    b: "\<forall>k. 1 \<le> k \<and> k < N \<longrightarrow> rounded_gain ?a 1 errs k < MAX_VOL_REDUCTION"
    by blast
  have two: "N = n \<or> N = Suc n" if "100 * d = real n"
  proof -
    have "real n - 1 < real N" "real N < real n + 2" using lo up that by linarith+
    then have "n \<le> N" "N \<le> Suc n" by linarith+
    then show ?thesis by linarith
  qed
  have exact: "N = n"
    if h: "100 * d = real n \<and> e1 = 0 \<and> e2 = 0 \<and> e3 = 0 \<and> (\<forall>e \<in> set errs. e = 0)"
  proof -
    have d0: "0 < d" using assms(1) by simp
    have n1: "1 \<le> n"
    proof -
      have "1 \<le> real n" using h assms(1) by linarith
      then show ?thesis by simp
    qed
    have "MAX_VOL_REDUCTION \<le> calculate_vol_reduction_amount d ^ n"
      using d0 h by (intro amount_power_ge_max) simp_all
    then have "MAX_VOL_REDUCTION \<le> rounded_gain ?a 1 errs n"
      using h by (simp add: rounded_gain_exact)
    then have "\<not> n < N" using b n1 by (auto simp: not_less)
    with two h show ?thesis by auto
  qed
  from N lo up two exact
  show "\<exists>N. rounded_ramp ?a 1 errs = Some N \<and>
       100 * d - 1 / 1000 < real N \<and> real N < 100 * d + 1 + 1 / 1000 \<and>
       (100 * d = real n \<longrightarrow> N = n \<or> N = Suc n) \<and>
       (100 * d = real n \<and> e1 = 0 \<and> e2 = 0 \<and> e3 = 0 \<and> (\<forall>e \<in> set errs. e = 0) \<longrightarrow> N = n)"
    by blast
qed

theorem rounded_ramp_steps_witness:
  "rounded_ramp (rounded_amount 4 0 0 0) 1 (replicate 1002 0) = Some 400"
proof -
  have a: "(1::real) \<le> 4" "(4::real) \<le> 10" "\<bar>0::real\<bar> \<le> 1 / 2 ^ 53" "\<bar>0::real\<bar> \<le> 1 / 2 ^ 52"
    by simp_all
  have e: "\<forall>e \<in> set (replicate 1002 (0::real)). \<bar>e\<bar> \<le> 1 / 2 ^ 53" by simp
  have l: "1002 \<le> length (replicate 1002 (0::real))" by simp
  have h: "100 * (4::real) = real (400::nat) \<and> (0::real) = 0 \<and> (0::real) = 0 \<and> (0::real) = 0 \<and>
      (\<forall>e \<in> set (replicate 1002 (0::real)). e = 0)"
    by simp
  from rounded_ramp_steps [OF a(1,2,3,3,4) e l, of 400] obtain N where
    N: "rounded_ramp (rounded_amount 4 0 0 0) 1 (replicate 1002 0) = Some N" and
    x: "100 * (4::real) = real (400::nat) \<and> (0::real) = 0 \<and> (0::real) = 0 \<and> (0::real) = 0 \<and>
      (\<forall>e \<in> set (replicate 1002 (0::real)). e = 0) \<longrightarrow> N = 400"
    by blast
  from x h have "N = 400" by (rule mp)
  with N show ?thesis by simp
qed

text \<open>
  The claim as stated, exactly \<open>100 * duration\<close> steps for every duration, fails: with
  the duration 1, the result of \<open>pow\<close> rounded down by the relative error \<open>2 ^ -53\<close> and
  every product exact, the gain after 100 multiplications is still below 200 and the
  101st is the last.
\<close>

theorem ramp_one_step_late_counterexample:
  "rounded_ramp (rounded_amount 1 0 0 (- (1 / 2 ^ 53))) 1 (replicate 1002 0) = Some 101"
proof -
  let ?e3 = "- (1 / 2 ^ 53) :: real"
  let ?a = "rounded_amount 1 0 0 ?e3"
  let ?errs = "replicate 1002 (0::real)"
  have a: "(1::real) \<le> 1" "(1::real) \<le> 10" "\<bar>0::real\<bar> \<le> 1 / 2 ^ 53" "\<bar>?e3\<bar> \<le> 1 / 2 ^ 52"
    by simp_all
  have e: "\<forall>e \<in> set ?errs. \<bar>e\<bar> \<le> 1 / 2 ^ 53" by simp
  have l: "1002 \<le> length ?errs" by simp
  from rounded_ramp_bounds [OF a(1,2,3,3,4) e l] obtain N where
    N: "rounded_ramp ?a 1 ?errs = Some N" and
    lo: "100 * 1 - 1 / 1000 < real N" and
    up: "real N < 100 * 1 + 1 + 1 / 1000" and
    g: "MAX_VOL_REDUCTION \<le> rounded_gain ?a 1 ?errs N"
    by blast
  have "real (99::nat) < real N" "real N < real (102::nat)" using lo up by simp_all
  then have range: "99 < N" "N < 102" by (simp_all only: of_nat_less_iff)
  have "(1 + ?e3) ^ Suc 99 < 1" by (intro power_Suc_less_one) simp_all
  then have p: "(1 + ?e3) ^ 100 < 1" by simp
  have "prod_list (map (\<lambda>e. 1 + e) (take 100 ?errs)) = 1"
    by (rule no_error_product) (auto dest: in_set_takeD)
  then have "rounded_gain ?a 1 ?errs 100 = MAX_VOL_REDUCTION * (1 + ?e3) ^ 100"
    by (simp add: rounded_gain_amount prod_list_replicate del: power_Suc)
  also have "\<dots> < MAX_VOL_REDUCTION * 1"
    using p by (intro mult_strict_left_mono) simp_all
  finally have "rounded_gain ?a 1 ?errs 100 < MAX_VOL_REDUCTION" by simp
  with g have "N \<noteq> 100" by auto
  with range have "N = 101" by linarith
  with N show ?thesis by simp
qed

subsection \<open>How the fading thread ends\<close>

lemma fading_thread_amount:
  "fading_thread d s obs = (st, l, s1) \<Longrightarrow>
     vol_reduction_amount l = calculate_vol_reduction_amount d"
  by (simp add: fading_thread_def Let_def fading_loop_amount)

lemma fading_thread_start:
  "fading_thread d s [] =
     (if vol_reduction s * calculate_vol_reduction_amount d < MAX_VOL_REDUCTION
      then (Sleeping,
            \<lparr>vol_reduction_amount = calculate_vol_reduction_amount d, target = 10000,
               remaining = 0\<rparr>,
            s\<lparr>vol_reduction := vol_reduction s * calculate_vol_reduction_amount d\<rparr>)
      else (Returned,
            \<lparr>vol_reduction_amount = calculate_vol_reduction_amount d, target = 10000,
               remaining = 0\<rparr>,
            s\<lparr>idle_sources := idle_sources s + 1, vol_reduction := 1\<rparr>))"
  by (simp add: fading_thread_def after_loop_def stop_playback_and_fading_def)

lemma fading_thread_step:
  assumes "fading_thread d s obs = (Sleeping, l, s1)" "sleep_accounting l elapsed = Some l1"
  shows "fading_thread d s (obs @ [(elapsed, evs)]) =
     (if vol_reduction (host_events evs s1) = 1 then (Exited, l1, host_events evs s1)
      else if vol_reduction (host_events evs s1) * calculate_vol_reduction_amount d
              < MAX_VOL_REDUCTION
      then (Sleeping, l1,
            (host_events evs s1)\<lparr>vol_reduction :=
               vol_reduction (host_events evs s1) * calculate_vol_reduction_amount d\<rparr>)
      else (Returned, l1,
            (host_events evs s1)\<lparr>idle_sources := idle_sources (host_events evs s1) + 1,
               vol_reduction := 1\<rparr>))"
proof -
  have lt: "vol_reduction s1 < MAX_VOL_REDUCTION"
    using assms(1) by (rule fading_thread_sleeping_lt)
  have "vol_reduction_amount l = calculate_vol_reduction_amount d"
    using assms(1) by (rule fading_thread_amount)
  then have am: "vol_reduction_amount l1 = calculate_vol_reduction_amount d"
    using assms(2) by (simp add: sleep_accounting_amount)
  have "fading_thread d s (obs @ [(elapsed, evs)]) = fading_loop l s1 [(elapsed, evs)]"
    by (simp add: fading_thread_append assms(1))
  also have "\<dots> =
     (if vol_reduction (host_events evs s1) = 1 then (Exited, l1, host_events evs s1)
      else if vol_reduction (host_events evs s1) * calculate_vol_reduction_amount d
              < MAX_VOL_REDUCTION
      then (Sleeping, l1,
            (host_events evs s1)\<lparr>vol_reduction :=
               vol_reduction (host_events evs s1) * calculate_vol_reduction_amount d\<rparr>)
      else (Returned, l1,
            (host_events evs s1)\<lparr>idle_sources := idle_sources (host_events evs s1) + 1,
               vol_reduction := 1\<rparr>))"
    using lt assms(2) am
    by (simp add: Let_def after_loop_def stop_playback_and_fading_def)
  finally show ?thesis .
qed

lemma fading_thread_step_undefined:
  assumes "fading_thread d s obs = (Sleeping, l, s1)" "sleep_accounting l elapsed = None"
  shows "fading_thread d s (obs @ [(elapsed, evs)]) = (Undefined, l, host_events evs s1)"
proof -
  have lt: "vol_reduction s1 < MAX_VOL_REDUCTION"
    using assms(1) by (rule fading_thread_sleeping_lt)
  have "fading_thread d s (obs @ [(elapsed, evs)]) = fading_loop l s1 [(elapsed, evs)]"
    by (simp add: fading_thread_append assms(1))
  also have "\<dots> = (Undefined, l, host_events evs s1)"
    using lt assms(2) by (simp add: Let_def)
  finally show ?thesis .
qed

lemma fading_thread_ended:
  assumes "fading_thread d s obs = (st, l, s1)" "st \<noteq> Sleeping"
  shows "fading_thread d s (obs @ obs') = (st, l, s1)"
  using assms by (cases st) (simp_all add: fading_thread_append)

text \<open>
  Claim C7. How a run of the fading thread goes on, statement by statement.
  \<^item> The thread multiplies the gain by its factor and tests it: below 200 it goes to
    sleep; at 200 or above it leaves the loop, queues the stop callback for the main loop
    and then sets the gain to 1.
  \<^item> After each sleep it polls the gain. Finding 1 it leaves through \<open>g_thread_exit\<close>,
    the state being exactly the one the other threads left: nothing queued, nothing
    written. Otherwise it multiplies and tests again: below 200 it sleeps on, at 200 or
    above it leaves the loop, queues the stop callback once and then sets the gain to 1.
  \<^item> A thread that has ended does nothing more.
  \<^item> \<open>aud_drct_stop\<close> is called in none of these steps: the calls counted are those of
    the other threads, and a run that no other thread disturbs changes nothing but
    \<open>vol_reduction\<close> and, on return, the queue of idle sources.
  \<^item> Every run that ends through \<open>g_thread_exit\<close> ends at a poll that found the gain 1.
\<close>

theorem fading_thread_defers_stop:
  "fading_thread d s [] =
     (if vol_reduction s * calculate_vol_reduction_amount d < MAX_VOL_REDUCTION
      then (Sleeping,
            \<lparr>vol_reduction_amount = calculate_vol_reduction_amount d, target = 10000,
               remaining = 0\<rparr>,
            s\<lparr>vol_reduction := vol_reduction s * calculate_vol_reduction_amount d\<rparr>)
      else (Returned,
            \<lparr>vol_reduction_amount = calculate_vol_reduction_amount d, target = 10000,
               remaining = 0\<rparr>,
            s\<lparr>idle_sources := idle_sources s + 1, vol_reduction := 1\<rparr>)) \<and>
   (fading_thread d s obs = (Sleeping, l, s1) \<and> sleep_accounting l elapsed = Some l1 \<longrightarrow>
      fading_thread d s (obs @ [(elapsed, evs)]) =
        (if vol_reduction (host_events evs s1) = 1 then (Exited, l1, host_events evs s1)
         else if vol_reduction (host_events evs s1) * calculate_vol_reduction_amount d
                 < MAX_VOL_REDUCTION
         then (Sleeping, l1,
               (host_events evs s1)\<lparr>vol_reduction :=
                  vol_reduction (host_events evs s1) * calculate_vol_reduction_amount d\<rparr>)
         else (Returned, l1,
               (host_events evs s1)\<lparr>idle_sources := idle_sources (host_events evs s1) + 1,
                  vol_reduction := 1\<rparr>))) \<and>
   (fading_thread d s obs = (Sleeping, l, s1) \<and> sleep_accounting l elapsed = None \<longrightarrow>
      fading_thread d s (obs @ [(elapsed, evs)]) = (Undefined, l, host_events evs s1)) \<and>
   (fading_thread d s obs = (st, l, s1) \<and> st \<noteq> Sleeping \<longrightarrow>
      fading_thread d s (obs @ obs') = (st, l, s1)) \<and>
   ((\<forall>ob \<in> set obs. snd ob = []) \<and> fading_thread d s obs = (st, l', s') \<longrightarrow>
      s' = s\<lparr>vol_reduction := vol_reduction s',
             idle_sources := idle_sources s + (if st = Returned then 1 else 0)\<rparr> \<and>
      playback_stops s' = playback_stops s) \<and>
   (fading_thread d s obs = (Exited, l', s') \<longrightarrow>
      vol_reduction s' = 1 \<and>
      (\<exists>obs1 e evs obs2 l1 s1.
          obs = obs1 @ (e, evs) # obs2 \<and> fading_thread d s obs1 = (Sleeping, l1, s1) \<and>
          s' = host_events evs s1))"
proof (intro conjI impI)
  show "fading_thread d s [] =
     (if vol_reduction s * calculate_vol_reduction_amount d < MAX_VOL_REDUCTION
      then (Sleeping,
            \<lparr>vol_reduction_amount = calculate_vol_reduction_amount d, target = 10000,
               remaining = 0\<rparr>,
            s\<lparr>vol_reduction := vol_reduction s * calculate_vol_reduction_amount d\<rparr>)
      else (Returned,
            \<lparr>vol_reduction_amount = calculate_vol_reduction_amount d, target = 10000,
               remaining = 0\<rparr>,
            s\<lparr>idle_sources := idle_sources s + 1, vol_reduction := 1\<rparr>))"
    by (rule fading_thread_start)
next
  assume "fading_thread d s obs = (Sleeping, l, s1) \<and> sleep_accounting l elapsed = Some l1"
  then show "fading_thread d s (obs @ [(elapsed, evs)]) =
        (if vol_reduction (host_events evs s1) = 1 then (Exited, l1, host_events evs s1)
         else if vol_reduction (host_events evs s1) * calculate_vol_reduction_amount d
                 < MAX_VOL_REDUCTION
         then (Sleeping, l1,
               (host_events evs s1)\<lparr>vol_reduction :=
                  vol_reduction (host_events evs s1) * calculate_vol_reduction_amount d\<rparr>)
         else (Returned, l1,
               (host_events evs s1)\<lparr>idle_sources := idle_sources (host_events evs s1) + 1,
                  vol_reduction := 1\<rparr>))"
    by (blast intro: fading_thread_step)
next
  assume "fading_thread d s obs = (Sleeping, l, s1) \<and> sleep_accounting l elapsed = None"
  then show "fading_thread d s (obs @ [(elapsed, evs)]) = (Undefined, l, host_events evs s1)"
    by (blast intro: fading_thread_step_undefined)
next
  assume "fading_thread d s obs = (st, l, s1) \<and> st \<noteq> Sleeping"
  then show "fading_thread d s (obs @ obs') = (st, l, s1)"
    by (blast intro: fading_thread_ended)
next
  assume a: "(\<forall>ob \<in> set obs. snd ob = []) \<and> fading_thread d s obs = (st, l', s')"
  let ?s = "s\<lparr>vol_reduction := vol_reduction s * calculate_vol_reduction_amount d\<rparr>"
  from a have al: "\<forall>ob \<in> set obs. snd ob = []"
    and r: "fading_loop \<lparr>vol_reduction_amount = calculate_vol_reduction_amount d,
        target = 10000, remaining = 0\<rparr> ?s obs = (st, l', s')"
    by (simp_all add: fading_thread_def Let_def)
  from al r have "s' = ?s\<lparr>vol_reduction := vol_reduction s',
      idle_sources := idle_sources ?s + (if st = Returned then 1 else 0)\<rparr>"
    by (rule fading_loop_alone)
  then show e: "s' = s\<lparr>vol_reduction := vol_reduction s',
      idle_sources := idle_sources s + (if st = Returned then 1 else 0)\<rparr>"
    by simp
  show "playback_stops s' = playback_stops s"
    by (subst e) simp
next
  assume a: "fading_thread d s obs = (Exited, l', s')"
  let ?l = "\<lparr>vol_reduction_amount = calculate_vol_reduction_amount d, target = 10000,
      remaining = 0\<rparr>"
  let ?s = "s\<lparr>vol_reduction := vol_reduction s * vol_reduction_amount ?l\<rparr>"
  from a have "fading_loop ?l ?s obs = (Exited, l', s')"
    by (simp add: fading_thread_def Let_def)
  then obtain obs1 e evs obs2 l1 s1 where
    o: "obs = obs1 @ (e, evs) # obs2" and
    r: "fading_loop ?l ?s obs1 = (Sleeping, l1, s1)" and
    s: "s' = host_events evs s1" "vol_reduction s' = 1"
    by (blast dest: fading_loop_Exited)
  from s(2) show "vol_reduction s' = 1" .
  have "fading_thread d s obs1 = (Sleeping, l1, s1)"
    using r by (simp add: fading_thread_def Let_def)
  with o s(1) show "\<exists>obs1 e evs obs2 l1 s1.
          obs = obs1 @ (e, evs) # obs2 \<and> fading_thread d s obs1 = (Sleeping, l1, s1) \<and>
          s' = host_events evs s1"
    by blast
qed

text \<open>
  With the duration 4 and the gain 1: the thread goes to sleep with the gain at its
  factor; the stream ending and the main loop running the callback during the first
  sleep make it leave at the poll, with the state as they left it; undisturbed and with
  sleeps on time, the gain after 398 sleeps is below 200, and the 399th sleep is followed
  by the multiplication that reaches 200: the thread returns with one idle source queued,
  the gain at 1 and \<open>aud_drct_stop\<close> not called. With the duration 10 the thread
  returns after 999 sleeps, and does nothing after that.
\<close>

theorem fading_thread_defers_stop_witness:
  "fading_thread 4 (initial_state\<lparr>is_plugin_processing := True\<rparr>) [] =
     (Sleeping,
      \<lparr>vol_reduction_amount = calculate_vol_reduction_amount 4, target = 10000, remaining = 0\<rparr>,
      initial_state\<lparr>is_plugin_processing := True,
        vol_reduction := calculate_vol_reduction_amount 4\<rparr>) \<and>
   fading_thread 4 (initial_state\<lparr>is_plugin_processing := True\<rparr>)
       [(ten_milliseconds, [Effect_finish, Idle_dispatch])] =
     (Exited,
      \<lparr>vol_reduction_amount = calculate_vol_reduction_amount 4, target = 10000,
         remaining = 10000\<rparr>,
      initial_state\<lparr>playback_stops := 1\<rparr>) \<and>
   fst (fading_thread 4 (initial_state\<lparr>is_plugin_processing := True\<rparr>)
          (replicate 398 (ten_milliseconds, []))) = Sleeping \<and>
   fst (fading_thread 4 (initial_state\<lparr>is_plugin_processing := True\<rparr>)
          (replicate 398 (ten_milliseconds, []) @ [(ten_milliseconds, [])])) = Returned \<and>
   snd (snd (fading_thread 4 (initial_state\<lparr>is_plugin_processing := True\<rparr>)
          (replicate 398 (ten_milliseconds, []) @ [(ten_milliseconds, [])]))) =
     initial_state\<lparr>is_plugin_processing := True, idle_sources := 1\<rparr> \<and>
   playback_stops (snd (snd (fading_thread 4 (initial_state\<lparr>is_plugin_processing := True\<rparr>)
          (replicate 399 (ten_milliseconds, []))))) = 0 \<and>
   fst (fading_thread 10 (initial_state\<lparr>is_plugin_processing := True\<rparr>)
          (replicate 999 (ten_milliseconds, []) @ [(ten_milliseconds, [Plugin_cleanup])])) =
     Returned"
proof -
  let ?p = "initial_state\<lparr>is_plugin_processing := True\<rparr>"
  let ?a = "calculate_vol_reduction_amount 4"
  let ?l = "\<lparr>vol_reduction_amount = ?a, target = 10000, remaining = 0\<rparr>"
  let ?m = "\<lparr>vol_reduction_amount = ?a, target = 10000, remaining = 10000\<rparr>"
  let ?q = "?p\<lparr>vol_reduction := ?a\<rparr>"
  let ?obs = "replicate 399 (ten_milliseconds, [] :: host_event list)"
  let ?obs' = "replicate 398 (ten_milliseconds, [] :: host_event list)"
  let ?evs = "[Effect_finish, Idle_dispatch]"
  have v: "vol_reduction ?p = 1" by (simp add: initial_state_def)
  have d: "(1::real) \<le> 4" "(4::real) \<le> 10" by simp_all
  have a1: "1 < ?a" using d by (rule amount_gt_1)
  have a2: "?a < MAX_VOL_REDUCTION" using d(1) by (rule amount_lt_max)
  have "fading_thread 4 ?p [] =
     (if vol_reduction ?p * ?a < MAX_VOL_REDUCTION
      then (Sleeping, ?l, ?p\<lparr>vol_reduction := vol_reduction ?p * ?a\<rparr>)
      else (Returned, ?l, ?p\<lparr>idle_sources := idle_sources ?p + 1, vol_reduction := 1\<rparr>))"
    using fading_thread_defers_stop [of 4 ?p] by blast
  then have first: "fading_thread 4 ?p [] = (Sleeping, ?l, ?q)"
    using a2 by (simp add: v)
  have ev: "host_events ?evs ?q = initial_state\<lparr>playback_stops := 1\<rparr>"
    using a1
    by (simp add: finish_def Let_def stop_playback_and_fading_def idle_dispatch_def
        stop_playback_and_fading_cb_def initial_state_def)
  then have one: "vol_reduction (host_events ?evs ?q) = 1"
    by (simp add: initial_state_def)
  have "fading_thread 4 ?p ([] @ [(ten_milliseconds, ?evs)]) =
     (if vol_reduction (host_events ?evs ?q) = 1 then (Exited, ?m, host_events ?evs ?q)
      else if vol_reduction (host_events ?evs ?q) * ?a < MAX_VOL_REDUCTION
      then (Sleeping, ?m,
            (host_events ?evs ?q)\<lparr>vol_reduction := vol_reduction (host_events ?evs ?q) * ?a\<rparr>)
      else (Returned, ?m,
            (host_events ?evs ?q)\<lparr>idle_sources := idle_sources (host_events ?evs ?q) + 1,
               vol_reduction := 1\<rparr>))"
    using fading_thread_defers_stop [of 4 ?p "[]" ?l ?q ten_milliseconds ?m ?evs]
      first sleep_accounting_on_time [of ?a]
    by blast
  then have poll: "fading_thread 4 ?p [(ten_milliseconds, ?evs)] =
      (Exited, ?m, initial_state\<lparr>playback_stops := 1\<rparr>)"
    unfolding ev append_Nil by (simp add: initial_state_def)
  have "real (Suc 398) < 100 * 4" by simp
  from fading_thread_on_time [OF d v this] obtain k where
    run: "fading_thread 4 ?p ?obs' = (Sleeping, k, ?p\<lparr>vol_reduction := ?a ^ Suc 398\<rparr>)" and
    k: "target k = 10000" "0 \<le> remaining k"
    by blast
  let ?s1 = "?p\<lparr>vol_reduction := ?a ^ Suc 398\<rparr>"
  let ?k1 = "k\<lparr>remaining := 10000, target := 10000\<rparr>"
  have acc: "sleep_accounting k ten_milliseconds = Some ?k1"
    using k by (rule sleep_accounting_on_time_general)
  have "1 < ?a ^ Suc 398" using a1 by (intro one_less_power) simp_all
  then have ne: "vol_reduction (host_events [] ?s1) \<noteq> 1" by simp
  have "MAX_VOL_REDUCTION \<le> ?a ^ 400"
    by (intro amount_power_ge_max) simp_all
  also have "?a ^ 400 = ?a ^ Suc 398 * ?a" by (simp add: power_Suc2 [symmetric] del: power_Suc)
  finally have top: "\<not> vol_reduction (host_events [] ?s1) * ?a < MAX_VOL_REDUCTION"
    by (simp del: power_Suc)
  have "fading_thread 4 ?p (?obs' @ [(ten_milliseconds, [])]) =
     (if vol_reduction (host_events [] ?s1) = 1 then (Exited, ?k1, host_events [] ?s1)
      else if vol_reduction (host_events [] ?s1) * ?a < MAX_VOL_REDUCTION
      then (Sleeping, ?k1,
            (host_events [] ?s1)\<lparr>vol_reduction := vol_reduction (host_events [] ?s1) * ?a\<rparr>)
      else (Returned, ?k1,
            (host_events [] ?s1)\<lparr>idle_sources := idle_sources (host_events [] ?s1) + 1,
               vol_reduction := 1\<rparr>))"
    using fading_thread_defers_stop [of 4 ?p ?obs' k ?s1 ten_milliseconds ?k1 "[]"] run acc
    by blast
  then have ret: "fading_thread 4 ?p (?obs' @ [(ten_milliseconds, [])]) =
      (Returned, ?k1,
       (host_events [] ?s1)\<lparr>idle_sources := idle_sources (host_events [] ?s1) + 1,
          vol_reduction := 1\<rparr>)"
    using ne top by (simp only: if_False)
  have r0: "fst (fading_thread 4 ?p ?obs') = Sleeping" by (simp only: run fst_conv)
  have r1: "fst (fading_thread 4 ?p (?obs' @ [(ten_milliseconds, [])])) = Returned"
    by (simp only: ret fst_conv)
  have r2: "snd (snd (fading_thread 4 ?p (?obs' @ [(ten_milliseconds, [])]))) =
      initial_state\<lparr>is_plugin_processing := True, idle_sources := 1\<rparr>"
    unfolding ret by (simp add: initial_state_def)
  obtain j where whole: "fading_thread 4 ?p ?obs =
      (Returned, j, ?p\<lparr>idle_sources := idle_sources ?p + 1, vol_reduction := 1\<rparr>)"
    using fading_thread_duration_4 [OF v] by blast
  let ?r = "?p\<lparr>idle_sources := idle_sources ?p + 1, vol_reduction := 1\<rparr>"
  have alone: "\<forall>ob \<in> set ?obs. snd ob = []" by simp
  have "playback_stops ?r = playback_stops ?p"
    using fading_thread_defers_stop [of 4 ?p ?obs _ _ _ _ _ Returned _ j ?r] alone whole
    by blast
  then have r3: "playback_stops (snd (snd (fading_thread 4 ?p ?obs))) = 0"
    unfolding whole by (simp add: initial_state_def)
  let ?obs1 = "replicate 999 (ten_milliseconds, [] :: host_event list)"
  have d1: "(1::real) \<le> 10" "(10::real) \<le> 10" by simp_all
  have "real 999 < 100 * 10" "100 * 10 \<le> real (Suc 999)" by simp_all
  from fading_thread_returns_on_time [OF d1 v this] obtain i where
    fin: "fading_thread 10 ?p ?obs1 =
      (Returned, i, ?p\<lparr>idle_sources := idle_sources ?p + 1, vol_reduction := 1\<rparr>)"
    by blast
  have "Returned \<noteq> Sleeping" by simp
  with fin have "fading_thread 10 ?p (?obs1 @ [(ten_milliseconds, [Plugin_cleanup])]) =
      (Returned, i, ?r)"
    using fading_thread_defers_stop
      [of 10 ?p ?obs1 i ?r _ _ _ Returned "[(ten_milliseconds, [Plugin_cleanup])]"]
    by blast
  then have r4: "fst (fading_thread 10 ?p (?obs1 @ [(ten_milliseconds, [Plugin_cleanup])])) =
      Returned"
    by (simp only: fst_conv)
  show ?thesis by (intro conjI first [simplified] poll r0 r1 r2 r3 r4)
qed

section \<open>The legacy plugin against the current one\<close>

lemma legacy_events_Nil [simp]: "legacy_events [] s = s"
  by (simp add: legacy_events_def)

lemma legacy_events_Cons [simp]:
  "legacy_events (e # evs) s = legacy_events evs (apply_legacy_event e s)"
  by (simp add: legacy_events_def)

lemma legacy_amount_eq:
  "legacy_calculate_vol_reduction_amount d = calculate_vol_reduction_amount d"
  by (simp add: legacy_calculate_vol_reduction_amount_def calculate_vol_reduction_amount_def)

lemma legacy_init_sets_amount:
  "legacy_vol_reduction_amount (fst (legacy_init d ls)) = legacy_calculate_vol_reduction_amount d \<and>
   legacy_plugin_active (fst (legacy_init d ls)) \<and>
   legacy_vol_reduction (fst (legacy_init d ls)) = legacy_vol_reduction ls \<and>
   legacy_idle_sources (fst (legacy_init d ls)) = legacy_idle_sources ls \<and>
   legacy_playback_stops (fst (legacy_init d ls)) = legacy_playback_stops ls"
  by (simp add: legacy_init_def)

lemma related_event:
  assumes "related a ls s"
  shows "related a (apply_legacy_event (legacy_event_of e) ls) (apply_host_event e s)"
proof (cases e)
  case Idle_dispatch
  with assms show ?thesis
    by (auto simp: related_def same_gain_state_def legacy_idle_dispatch_def idle_dispatch_def
        legacy_stop_playback_and_fading_def stop_playback_and_fading_cb_def)
next
  case Plugin_cleanup
  with assms show ?thesis
    by (auto simp: related_def same_gain_state_def legacy_cleanup_def cleanup_def)
next
  case Effect_start
  with assms show ?thesis
    by (auto simp: related_def same_gain_state_def legacy_fadeout_start_def start_def)
next
  case Effect_finish
  with assms show ?thesis
    by (auto simp: related_def same_gain_state_def legacy_fadeout_finish_def finish_def
        stop_playback_and_fading_def Let_def)
qed

lemma related_events:
  "related a ls s \<Longrightarrow> related a (legacy_events (map legacy_event_of evs) ls) (host_events evs s)"
proof (induction evs arbitrary: ls s)
  case Nil
  then show ?case by simp
next
  case (Cons e evs)
  from Cons.prems have "related a (apply_legacy_event (legacy_event_of e) ls) (apply_host_event e s)"
    by (rule related_event)
  then show ?case by (simp add: Cons.IH)
qed

lemma same_sleep_accounting:
  assumes "same_locals ll l"
  shows "(case (legacy_sleep_accounting ll elapsed, sleep_accounting l elapsed) of
            (None, None) \<Rightarrow> True
          | (Some ll', Some l') \<Rightarrow> same_locals ll' l'
          | _ \<Rightarrow> False)"
  using assms
  by (simp add: same_locals_def legacy_sleep_accounting_def sleep_accounting_def
      split: option.splits)

lemma legacy_observations_Nil [simp]: "legacy_observations [] = []"
  by (simp add: legacy_observations_def)

lemma legacy_observations_Cons [simp]:
  "legacy_observations ((e, evs) # obs) = (e, map legacy_event_of evs) # legacy_observations obs"
  by (simp add: legacy_observations_def)

lemma legacy_observations_take:
  "take k (legacy_observations obs) = legacy_observations (take k obs)"
  by (simp add: legacy_observations_def take_map)

lemma legacy_fading_loop_related:
  assumes "related (vol_reduction_amount l) ls s" "same_locals ll l"
    and "fading_loop l s obs = (st, l', s')"
  shows "\<exists>ll' ls'. legacy_fading_loop ll ls (legacy_observations obs) = (st, ll', ls') \<and>
           same_locals ll' l' \<and> same_gain_state ls' s'"
  using assms
proof (induction obs arbitrary: l s ll ls)
  case Nil
  then show ?case
    by (auto simp: related_def same_gain_state_def legacy_after_loop_def after_loop_def
        stop_playback_and_fading_def split: if_splits)
next
  case (Cons ob obs)
  obtain e evs where ob: "ob = (e, evs)" by (cases ob)
  let ?a = "vol_reduction_amount l"
  have v: "legacy_vol_reduction ls = vol_reduction s"
    using Cons.prems(1) by (simp add: related_def same_gain_state_def)
  show ?case
  proof (cases "vol_reduction s < MAX_VOL_REDUCTION")
    case False
    with Cons.prems v show ?thesis
      by (auto simp: ob related_def same_gain_state_def legacy_after_loop_def after_loop_def
          stop_playback_and_fading_def)
  next
    case True
    let ?s1 = "host_events evs s"
    let ?ls1 = "legacy_events (map legacy_event_of evs) ls"
    have r1: "related ?a ?ls1 ?s1" using Cons.prems(1) by (rule related_events)
    then have v1: "legacy_vol_reduction ?ls1 = vol_reduction ?s1"
      and g1: "same_gain_state ?ls1 ?s1"
      and a1: "legacy_vol_reduction_amount ?ls1 = ?a"
      and act: "legacy_plugin_active ?ls1 \<or> legacy_vol_reduction ?ls1 = 1"
      by (auto simp: related_def same_gain_state_def)
    note acc = same_sleep_accounting [OF Cons.prems(2), of e]
    show ?thesis
    proof (cases "sleep_accounting l e")
      case None
      then have "legacy_sleep_accounting ll e = None"
        using acc by (simp split: option.splits)
      with None Cons.prems(2,3) True v g1 show ?thesis
        by (simp add: ob Let_def)
    next
      case (Some l1)
      then obtain ll1 where lacc: "legacy_sleep_accounting ll e = Some ll1"
        and sl: "same_locals ll1 l1"
        using acc by (auto split: option.splits)
      have am: "vol_reduction_amount l1 = ?a"
        using Some by (rule sleep_accounting_amount)
      show ?thesis
      proof (cases "vol_reduction ?s1 = 1")
        case one: True
        with Some lacc sl Cons.prems(3) True v v1 g1 show ?thesis
          by (simp add: ob Let_def)
      next
        case False
        let ?s2 = "?s1\<lparr>vol_reduction := vol_reduction ?s1 * vol_reduction_amount l1\<rparr>"
        let ?ls2 = "?ls1\<lparr>legacy_vol_reduction :=
            legacy_vol_reduction ?ls1 * legacy_vol_reduction_amount ?ls1\<rparr>"
        have active: "legacy_plugin_active ?ls1" using act v1 False by simp
        have r2: "related (vol_reduction_amount l1) ?ls2 ?s2"
          using g1 a1 am active v1 by (simp add: related_def same_gain_state_def)
        have run: "fading_loop l1 ?s2 obs = (st, l', s')"
          using Cons.prems(3) True Some False by (simp add: ob Let_def)
        have lrun: "legacy_fading_loop ll ls (legacy_observations (ob # obs)) =
            legacy_fading_loop ll1 ?ls2 (legacy_observations obs)"
          using True v lacc False v1 by (simp add: ob Let_def)
        from Cons.IH [OF r2 sl run] show ?thesis by (simp only: lrun)
      qed
    qed
  qed
qed

lemma legacy_fading_thread_related:
  assumes "same_gain_state ls s" "legacy_plugin_active ls"
    and "legacy_vol_reduction_amount ls = legacy_calculate_vol_reduction_amount d"
  shows "\<exists>ll' ls'. legacy_fading_thread ls (legacy_observations obs) =
           (fst (fading_thread d s obs), ll', ls') \<and>
           same_locals ll' (fst (snd (fading_thread d s obs))) \<and>
           same_gain_state ls' (snd (snd (fading_thread d s obs)))"
proof -
  let ?a = "calculate_vol_reduction_amount d"
  let ?l = "\<lparr>vol_reduction_amount = ?a, target = 10000, remaining = 0\<rparr>"
  let ?ll = "\<lparr>legacy_target = 10000, legacy_diff = 0, legacy_remaining = 0\<rparr>"
  let ?s = "s\<lparr>vol_reduction := vol_reduction s * vol_reduction_amount ?l\<rparr>"
  let ?ls = "ls\<lparr>legacy_vol_reduction :=
      legacy_vol_reduction ls * legacy_vol_reduction_amount ls\<rparr>"
  have am: "legacy_vol_reduction_amount ls = ?a"
    using assms(3) by (simp add: legacy_amount_eq)
  have r: "related (vol_reduction_amount ?l) ?ls ?s"
    using assms(1,2) am by (simp add: related_def same_gain_state_def)
  have sl: "same_locals ?ll ?l" by (simp add: same_locals_def)
  obtain st l' s' where run: "fading_loop ?l ?s obs = (st, l', s')"
    by (cases "fading_loop ?l ?s obs") blast
  from legacy_fading_loop_related [OF r sl run] obtain ll' ls' where
    "legacy_fading_loop ?ll ?ls (legacy_observations obs) = (st, ll', ls')"
    "same_locals ll' l'" "same_gain_state ls' s'"
    by blast
  moreover have "fading_thread d s obs = (st, l', s')"
    using run by (simp add: fading_thread_def Let_def)
  ultimately show ?thesis
    by (simp add: legacy_fading_thread_def)
qed

text \<open>
  Claim C10. With the global step factor of the C file computed from the duration that
  the current thread reads, and the two states agreeing on gain, idle queue and stop
  calls, the two fading threads run alike under the same sleep times and the same events
  of the other threads: the step factors are equal, the runs end in the same way, the
  bookkeeping of the sleep agrees, the final states agree on gain, idle queue and stop
  calls, and the gains after every prefix of the run form the same sequence.
\<close>

theorem legacy_fading_thread_equivalent:
  assumes "same_gain_state ls s" "legacy_plugin_active ls"
    and "legacy_vol_reduction_amount ls = legacy_calculate_vol_reduction_amount d"
  shows "legacy_calculate_vol_reduction_amount d = calculate_vol_reduction_amount d \<and>
    (\<exists>ll' ls'. legacy_fading_thread ls (legacy_observations obs) =
        (fst (fading_thread d s obs), ll', ls') \<and>
        same_locals ll' (fst (snd (fading_thread d s obs))) \<and>
        same_gain_state ls' (snd (snd (fading_thread d s obs)))) \<and>
    legacy_gain_sequence ls (legacy_observations obs) = gain_sequence d s obs"
proof (intro conjI)
  show "legacy_calculate_vol_reduction_amount d = calculate_vol_reduction_amount d"
    by (rule legacy_amount_eq)
  show "\<exists>ll' ls'. legacy_fading_thread ls (legacy_observations obs) =
        (fst (fading_thread d s obs), ll', ls') \<and>
        same_locals ll' (fst (snd (fading_thread d s obs))) \<and>
        same_gain_state ls' (snd (snd (fading_thread d s obs)))"
    using assms by (rule legacy_fading_thread_related)
  have "legacy_vol_reduction (snd (snd (legacy_fading_thread ls (take k (legacy_observations obs))))) =
      vol_reduction (snd (snd (fading_thread d s (take k obs))))" for k
  proof -
    from legacy_fading_thread_related [OF assms, of "take k obs"] obtain ll' ls' where
      "legacy_fading_thread ls (legacy_observations (take k obs)) =
         (fst (fading_thread d s (take k obs)), ll', ls')"
      "same_gain_state ls' (snd (snd (fading_thread d s (take k obs))))"
      by blast
    then show ?thesis
      by (simp add: legacy_observations_take same_gain_state_def)
  qed
  then show "legacy_gain_sequence ls (legacy_observations obs) = gain_sequence d s obs"
    by (simp add: legacy_gain_sequence_def gain_sequence_def legacy_observations_def)
qed

theorem legacy_fading_thread_equivalent_witness:
  "fst (legacy_fading_thread (fst (legacy_init 4 legacy_initial_state))
          (legacy_observations (replicate 399 (ten_milliseconds, [])))) = Returned \<and>
   same_gain_state
     (snd (snd (legacy_fading_thread (fst (legacy_init 4 legacy_initial_state))
          (legacy_observations (replicate 399 (ten_milliseconds, []))))))
     (initial_state\<lparr>is_plugin_processing := True, idle_sources := 1\<rparr>) \<and>
   legacy_gain_sequence (fst (legacy_init 4 legacy_initial_state))
       (legacy_observations (replicate 399 (ten_milliseconds, []))) =
     gain_sequence 4 (initial_state\<lparr>is_plugin_processing := True\<rparr>)
       (replicate 399 (ten_milliseconds, []))"
proof -
  let ?p = "initial_state\<lparr>is_plugin_processing := True\<rparr>"
  let ?ls = "fst (legacy_init 4 legacy_initial_state)"
  let ?obs = "replicate 399 (ten_milliseconds, [] :: host_event list)"
  have g: "same_gain_state ?ls ?p"
    by (simp add: same_gain_state_def legacy_init_def legacy_initial_state_def initial_state_def)
  have a: "legacy_plugin_active ?ls" by (simp add: legacy_init_def)
  have f: "legacy_vol_reduction_amount ?ls = legacy_calculate_vol_reduction_amount 4"
    by (simp add: legacy_init_def)
  note T = legacy_fading_thread_equivalent [OF g a f, of ?obs]
  have v: "vol_reduction ?p = 1" by (simp add: initial_state_def)
  obtain k where run: "fading_thread 4 ?p ?obs =
      (Returned, k, ?p\<lparr>idle_sources := idle_sources ?p + 1, vol_reduction := 1\<rparr>)"
    using fading_thread_duration_4 [OF v] by blast
  have e: "?p\<lparr>idle_sources := idle_sources ?p + 1, vol_reduction := 1\<rparr> =
      initial_state\<lparr>is_plugin_processing := True, idle_sources := 1\<rparr>"
    by (simp add: initial_state_def)
  from T obtain ll' ls' where
    l: "legacy_fading_thread ?ls (legacy_observations ?obs) =
          (fst (fading_thread 4 ?p ?obs), ll', ls')" and
    s: "same_gain_state ls' (snd (snd (fading_thread 4 ?p ?obs)))" and
    q: "legacy_gain_sequence ?ls (legacy_observations ?obs) = gain_sequence 4 ?p ?obs"
    by blast
  have r1: "fst (legacy_fading_thread ?ls (legacy_observations ?obs)) = Returned"
    by (simp only: l run fst_conv)
  have r2: "same_gain_state (snd (snd (legacy_fading_thread ?ls (legacy_observations ?obs))))
      (initial_state\<lparr>is_plugin_processing := True, idle_sources := 1\<rparr>)"
    using s by (simp only: l run snd_conv e)
  show ?thesis by (intro conjI r1 r2 q)
qed

end
